theory Spec2Isabelle
  imports Main "HOL-Library.Word" "HOL-Library.List_Lexorder"
begin

section \<open>Bytes, memory and the native representation of integers\<close>

text \<open>
  The encoders of \<^verbatim>\<open>encoding.h\<close> work on raw memory through \<^verbatim>\<open>char*\<close>
  pointers and on the object representation of scalars through unions. A byte is an
  8-bit word (the source asserts \<^verbatim>\<open>CHAR_BIT == 8\<close>), an address is a
  natural number and memory maps every address to a byte. The source performs no bounds
  check on any pointer, so memory has no bounds here either.
\<close>

type_synonym byte = "8 word"
type_synonym addr = nat
type_synonym memory = "addr \<Rightarrow> byte"

text \<open>\<^verbatim>\<open>memcpy(dest, src, n)\<close> into memory, and the \<open>n\<close> bytes found at an address.\<close>

primrec mem_write :: "memory \<Rightarrow> addr \<Rightarrow> byte list \<Rightarrow> memory" where
  "mem_write m p [] = m"
| "mem_write m p (b # bs) = mem_write (m(p := b)) (Suc p) bs"

primrec mem_read :: "memory \<Rightarrow> addr \<Rightarrow> nat \<Rightarrow> byte list" where
  "mem_read m p 0 = []"
| "mem_read m p (Suc n) = m p # mem_read m (Suc p) n"

text \<open>
  The object representation of an unsigned integer on the host. The source's comments
  (``restore the original little-endian representation used for comparisons'') fix a
  little-endian host: the least significant byte comes first. \<open>uint_bytes n v\<close> is the
  representation of \<open>v\<close> converted to an \<open>n\<close>-byte unsigned type (the conversion
  keeps the low \<open>n\<close> bytes), \<open>uint_value\<close> reads a representation back.
\<close>

primrec uint_bytes :: "nat \<Rightarrow> nat \<Rightarrow> byte list" where
  "uint_bytes 0 v = []"
| "uint_bytes (Suc n) v = of_nat (v mod 256) # uint_bytes n (v div 256)"

primrec uint_value :: "byte list \<Rightarrow> nat" where
  "uint_value [] = 0"
| "uint_value (b # bs) = unat b + 256 * uint_value bs"

section \<open>Types and values\<close>

text \<open>
  The templates are instantiated with scalar types, \<^verbatim>\<open>std::string\<close> and
  \<^verbatim>\<open>std::tuple\<close>. A scalar type is named by its kind and its \<^verbatim>\<open>sizeof\<close>
  (\<^verbatim>\<open>uint16_t\<close> is \<open>Unsigned 2\<close>); two scalar types are the same type
  (\<^verbatim>\<open>std::is_same\<close>) iff they are equal here. A scalar value is its object
  representation, a string is its bytes, a tuple its fields.
\<close>

datatype scalar_t = Unsigned nat | Signed nat | Floating nat

fun sizeof :: "scalar_t \<Rightarrow> nat" where
  "sizeof (Unsigned n) = n"
| "sizeof (Signed n) = n"
| "sizeof (Floating n) = n"

datatype ty = TScalar scalar_t | TString | TTuple "ty list"

datatype val = VScalar "byte list" | VString "byte list" | VTuple "val list"

fun has_type :: "val \<Rightarrow> ty \<Rightarrow> bool" where
  "has_type (VScalar bs) (TScalar T) = (length bs = sizeof T)"
| "has_type (VString s) TString = True"
| "has_type (VTuple vs) (TTuple Ts) = list_all2 has_type vs Ts"
| "has_type _ _ = False"

definition scalar_bytes :: "val \<Rightarrow> byte list" where
  "scalar_bytes v = (case v of VScalar bs \<Rightarrow> bs | _ \<Rightarrow> [])"

definition string_bytes :: "val \<Rightarrow> byte list" where
  "string_bytes v = (case v of VString s \<Rightarrow> s | _ \<Rightarrow> [])"

definition tuple_fields :: "val \<Rightarrow> val list" where
  "tuple_fields v = (case v of VTuple vs \<Rightarrow> vs | _ \<Rightarrow> [])"

section \<open>Endianness and prefix extraction\<close>

text \<open>
  A scalar type may have padding bytes: on x86-64 a \<^verbatim>\<open>long double\<close> has
  \<^verbatim>\<open>sizeof\<close> 16 and its value lies in the first 10 bytes. Passing, assigning or
  returning an object by value copies its value, and the padding bytes of the copy are
  indeterminate. \<open>by_value vb pad obj\<close> is such a copy of \<open>obj\<close> for a type whose
  first \<open>vb\<close> bytes hold the value: \<open>pad\<close> gives the indeterminate bytes by
  position. (The types of \<open>scalar_t\<close> have no padding bytes: for them \<open>vb\<close> is
  \<^verbatim>\<open>sizeof\<close>.)
\<close>

definition by_value :: "nat \<Rightarrow> (nat \<Rightarrow> byte) \<Rightarrow> byte list \<Rightarrow> byte list" where
  "by_value vb pad obj = take vb obj @ map pad [vb..<length obj]"

text \<open>
  \<^verbatim>\<open>swap_endianness<T>(u)\<close> takes \<open>u\<close> by value, assigns it to
  \<^verbatim>\<open>source.u\<close>, and the loop assigns \<^verbatim>\<open>dest.u8[k] = source.u8[sizeof(T) - k - 1]\<close>
  for \<open>k\<close> from 0 up to \<^verbatim>\<open>sizeof(T)\<close>; \<^verbatim>\<open>dest.u\<close> is returned by value.
  \<open>sizeof(T)\<close> is the length of the representation of \<open>u\<close>, \<open>vb\<close> the number
  of its bytes that hold the value, \<open>pad_in\<close> and \<open>pad_out\<close> the indeterminate
  padding of \<^verbatim>\<open>source.u\<close> and of the returned object. The union \<open>dest\<close> is not
  initialised; the loop assigns every byte of it before it is read.
\<close>

function swap_loop :: "byte list \<Rightarrow> byte list \<Rightarrow> nat \<Rightarrow> byte list" where
  "swap_loop source dest k =
     (if k < length source
      then swap_loop source (dest[k := source ! (length source - k - 1)]) (k + 1)
      else dest)"
  by pat_completeness auto
termination
  by (relation "measure (\<lambda>(source, dest, k). length source - k)") auto

declare swap_loop.simps [simp del]

definition swap_endianness ::
    "nat \<Rightarrow> (nat \<Rightarrow> byte) \<Rightarrow> (nat \<Rightarrow> byte) \<Rightarrow> byte list \<Rightarrow> byte list" where
  "swap_endianness vb pad_in pad_out u =
     (let source = by_value vb pad_in u;
          dest = swap_loop source (replicate (length source) 0) 0
      in by_value vb pad_out dest)"

text \<open>\<^verbatim>\<open>NoPrefixing<K>\<close> returns its input.\<close>

definition NoPrefixing :: "val \<Rightarrow> val" where
  "NoPrefixing key = key"

text \<open>
  \<^verbatim>\<open>PoormanPrefixing<K, PMNK_Type>\<close> for a scalar \<open>K\<close>. The anonymous union
  overlays \<^verbatim>\<open>K swapped\<close> and \<^verbatim>\<open>PMNK_Type prefix\<close> at the same address, so
  \<open>prefix\<close> is the first \<open>sizeof(PMNK_Type)\<close> bytes of the union. \<open>sp\<close> is
  \<^verbatim>\<open>sizeof(PMNK_Type)\<close>. Both types are types of \<open>scalar_t\<close>, without padding
  bytes, so every byte of either holds its value. The \<open>else\<close> branch cannot be
  reached in an instantiation that passes the static assertion
  \<^verbatim>\<open>sizeof(K) >= sizeof(PMNK_Type)\<close>; there the bytes of the union beyond the key
  are indeterminate (zero here).
\<close>

definition PoormanPrefixing :: "nat \<Rightarrow> (nat \<Rightarrow> byte) \<Rightarrow> byte list \<Rightarrow> byte list" where
  "PoormanPrefixing sp junk key =
     (if length key \<ge> sp then
        let u = swap_endianness (length key) junk junk key;
            u = swap_endianness sp junk junk (take sp u) @ drop sp u
        in take sp u
      else
        let u = key @ replicate (sp - length key) 0
        in take sp u)"

text \<open>The static assertions of the primary template.\<close>

definition PoormanPrefixing_static_assert :: "ty \<Rightarrow> scalar_t \<Rightarrow> bool" where
  "PoormanPrefixing_static_assert K P =
     (case K of TScalar T \<Rightarrow> sizeof T \<ge> sizeof P | _ \<Rightarrow> False)"

text \<open>
  \<^verbatim>\<open>PoormanPrefixing<string, PMNK_Type>\<close>. The union of \<open>bytes\<close> and
  \<open>prefix\<close> is a local variable without initialiser: \<open>junk\<close> gives its
  indeterminate contents, byte by byte. Assigning \<^verbatim>\<open>prefix = 0\<close> stores the
  representation of 0; \<open>memcpy\<close> replaces the first \<open>amount\<close> bytes.
\<close>

definition PoormanPrefixing_string :: "nat \<Rightarrow> (nat \<Rightarrow> byte) \<Rightarrow> byte list \<Rightarrow> byte list" where
  "PoormanPrefixing_string sp junk key =
     (let u = map junk [0..<sp];
          amount = sp;
          (u, amount) = (if length key < amount then (uint_bytes sp 0, length key) else (u, amount));
          u = take amount key @ drop amount u;
          u = swap_endianness sp junk junk u
      in u)"

text \<open>
  \<^verbatim>\<open>PMNKEncoder<K, PMNK_Type>::get_pmnk\<close>: \<open>NoPrefixing\<close> when the two types are
  the same, otherwise \<open>PoormanPrefixing\<close>, whose specialisation for strings is chosen
  when \<open>K\<close> is \<^verbatim>\<open>string\<close>.
\<close>

definition get_pmnk :: "ty \<Rightarrow> scalar_t \<Rightarrow> (nat \<Rightarrow> byte) \<Rightarrow> val \<Rightarrow> val" where
  "get_pmnk K P junk key =
     (if TScalar P = K then NoPrefixing key
      else if K = TString then VScalar (PoormanPrefixing_string (sizeof P) junk (string_bytes key))
      else VScalar (PoormanPrefixing (sizeof P) junk (scalar_bytes key)))"

section \<open>Encoders\<close>

text \<open>
  An encoder function that takes \<^verbatim>\<open>char* dest\<close> and writes through it takes the
  memory and the address and returns the memory after the call with the returned pointer.
  An output parameter \<^verbatim>\<open>T* value_p\<close> is \<open>None\<close> for \<^verbatim>\<open>nullptr\<close> and
  \<open>Some old\<close> for a pointer to an object that holds \<open>old\<close>; a decode function
  returns the object after the call next to the returned pointer.
\<close>

subsection \<open>\<^verbatim>\<open>DummyEncoder<T>\<close>\<close>

definition DummyEncoder_get_payload_length :: "val \<Rightarrow> nat" where
  "DummyEncoder_get_payload_length value = 0"

definition DummyEncoder_get_payload_length_ptr :: "memory \<Rightarrow> addr \<Rightarrow> nat" where
  "DummyEncoder_get_payload_length_ptr m ptr = 0"

definition DummyEncoder_encode :: "val \<Rightarrow> memory \<Rightarrow> addr \<Rightarrow> memory \<times> addr" where
  "DummyEncoder_encode value m p = (m, p)"

definition DummyEncoder_decode :: "memory \<Rightarrow> addr \<Rightarrow> val option \<Rightarrow> addr \<times> val option" where
  "DummyEncoder_decode m p value_p = (p, value_p)"

subsection \<open>\<^verbatim>\<open>AssignmentEncoder<T>\<close> for a scalar \<open>T\<close>\<close>

definition AssignmentEncoder_get_payload_length :: "scalar_t \<Rightarrow> val \<Rightarrow> nat" where
  "AssignmentEncoder_get_payload_length T value = sizeof T"

definition AssignmentEncoder_get_payload_length_ptr :: "scalar_t \<Rightarrow> memory \<Rightarrow> addr \<Rightarrow> nat" where
  "AssignmentEncoder_get_payload_length_ptr T m ptr = sizeof T"

text \<open>\<^verbatim>\<open>new (dest) T {value}\<close> copies the object representation of \<open>value\<close> to \<open>dest\<close>.\<close>

definition AssignmentEncoder_encode :: "scalar_t \<Rightarrow> val \<Rightarrow> memory \<Rightarrow> addr \<Rightarrow> memory \<times> addr" where
  "AssignmentEncoder_encode T value m dest = (mem_write m dest (scalar_bytes value), dest + sizeof T)"

definition AssignmentEncoder_decode :: "scalar_t \<Rightarrow> memory \<Rightarrow> addr \<Rightarrow> val option \<Rightarrow> addr \<times> val option" where
  "AssignmentEncoder_decode T m src value_p =
     (let value_src = VScalar (mem_read m src (sizeof T));
          value_p = (case value_p of None \<Rightarrow> None | Some old \<Rightarrow> Some value_src)
      in (src + sizeof T, value_p))"

subsection \<open>\<^verbatim>\<open>InlineEncoder<string>\<close>\<close>

text \<open>\<^verbatim>\<open>sizeof(LengthType)\<close> for \<^verbatim>\<open>LengthType = uint16_t\<close>.\<close>

definition sizeof_LengthType :: nat where
  "sizeof_LengthType = 2"

definition InlineEncoder_string_get_payload_length :: "val \<Rightarrow> nat" where
  "InlineEncoder_string_get_payload_length value = sizeof_LengthType + length (string_bytes value)"

definition InlineEncoder_string_get_payload_length_ptr :: "memory \<Rightarrow> addr \<Rightarrow> nat" where
  "InlineEncoder_string_get_payload_length_ptr m ptr =
     uint_value (mem_read m ptr sizeof_LengthType) + sizeof_LengthType"

text \<open>
  The assignment through \<^verbatim>\<open>reinterpret_cast<LengthType*>(dest)\<close> converts
  \<^verbatim>\<open>value.length()\<close> from \<^verbatim>\<open>size_t\<close> to \<^verbatim>\<open>uint16_t\<close> and stores its
  two bytes.
\<close>

definition InlineEncoder_string_encode :: "val \<Rightarrow> memory \<Rightarrow> addr \<Rightarrow> memory \<times> addr" where
  "InlineEncoder_string_encode value m dest =
     (let m = mem_write m dest (uint_bytes sizeof_LengthType (length (string_bytes value)));
          dest = dest + sizeof_LengthType;
          m = mem_write m dest (string_bytes value);
          dest = dest + length (string_bytes value)
      in (m, dest))"

definition InlineEncoder_string_decode :: "memory \<Rightarrow> addr \<Rightarrow> val option \<Rightarrow> addr \<times> val option" where
  "InlineEncoder_string_decode m src value_p =
     (let len = uint_value (mem_read m src sizeof_LengthType);
          value_p = (case value_p of None \<Rightarrow> None
                     | Some old \<Rightarrow> Some (VString (mem_read m (src + sizeof_LengthType) len)))
      in (src + sizeof_LengthType + len, value_p))"

subsection \<open>\<^verbatim>\<open>InlineEncoder<T>\<close> and \<^verbatim>\<open>TupleEncodingHelper<InlineEncoder, N>\<close>\<close>

text \<open>
  \<^verbatim>\<open>InlineEncoder<T>\<close> inherits \<^verbatim>\<open>AssignmentEncoder<T>\<close> unless \<open>T\<close> is
  \<^verbatim>\<open>string\<close> or a tuple; the tuple specialisation calls the helper at \<open>N = 0\<close>,
  and the helper calls \<^verbatim>\<open>FieldEncoder<T_N>\<close>, which is \<^verbatim>\<open>InlineEncoder\<close>,
  on field \<open>N\<close> and then itself at \<open>N + 1\<close>. In the helper \<open>Ts\<close> is the pack
  \<^verbatim>\<open>T...\<close>, the condition \<^verbatim>\<open>N < sizeof...(T)\<close> selects between the two
  overloads of each function, and \<open>t\<close> holds the fields of the tuple.
\<close>

function InlineEncoder_get_payload_length :: "ty \<Rightarrow> val \<Rightarrow> nat"
  and TupleEncodingHelper_get_payload_length :: "nat \<Rightarrow> ty list \<Rightarrow> val list \<Rightarrow> nat" where
  "InlineEncoder_get_payload_length (TScalar T) value = AssignmentEncoder_get_payload_length T value"
| "InlineEncoder_get_payload_length TString value = InlineEncoder_string_get_payload_length value"
| "InlineEncoder_get_payload_length (TTuple Types) value =
     TupleEncodingHelper_get_payload_length 0 Types (tuple_fields value)"
| "TupleEncodingHelper_get_payload_length N Ts t =
     (if N < length Ts
      then TupleEncodingHelper_get_payload_length (N + 1) Ts t
           + InlineEncoder_get_payload_length (Ts ! N) (t ! N)
      else 0)"
  by pat_completeness auto
termination
  by (relation "measures [\<lambda>x. case x of Inl (T, v) \<Rightarrow> 2 * size T
                                       | Inr (N, Ts, t) \<Rightarrow> 2 * size_list size Ts + 1,
                           \<lambda>x. case x of Inl (T, v) \<Rightarrow> 0 | Inr (N, Ts, t) \<Rightarrow> length Ts - N]")
     (auto simp: less_Suc_eq_le size_list_estimation' [OF nth_mem order_refl])

declare TupleEncodingHelper_get_payload_length.simps [simp del]

text \<open>
  The overloads of \<^verbatim>\<open>get_payload_length\<close> that take \<^verbatim>\<open>void* ptr\<close>. The pack
  \<^verbatim>\<open>T...\<close> occurs in no parameter of these overloads and no call names it, neither
  \<^verbatim>\<open>Helper::get_payload_length(ptr)\<close> in the tuple specialisation of
  \<^verbatim>\<open>InlineEncoder\<close> nor \<^verbatim>\<open>NextEncoder::get_payload_length(charptr)\<close> in the
  helper: template argument deduction gives a pack that is not otherwise deduced the empty
  sequence, so both calls instantiate the helper with the empty pack. The overload for
  \<^verbatim>\<open>N < sizeof...(T)\<close> does not add \<open>flen\<close> to what it returns.
\<close>

function InlineEncoder_get_payload_length_ptr :: "ty \<Rightarrow> memory \<Rightarrow> addr \<Rightarrow> nat"
  and TupleEncodingHelper_get_payload_length_ptr :: "nat \<Rightarrow> ty list \<Rightarrow> memory \<Rightarrow> addr \<Rightarrow> nat" where
  "InlineEncoder_get_payload_length_ptr (TScalar T) m ptr = AssignmentEncoder_get_payload_length_ptr T m ptr"
| "InlineEncoder_get_payload_length_ptr TString m ptr = InlineEncoder_string_get_payload_length_ptr m ptr"
| "InlineEncoder_get_payload_length_ptr (TTuple Types) m ptr =
     TupleEncodingHelper_get_payload_length_ptr 0 [] m ptr"
| "TupleEncodingHelper_get_payload_length_ptr N Ts m ptr =
     (if N < length Ts
      then let flen = InlineEncoder_get_payload_length_ptr (Ts ! N) m ptr;
               charptr = ptr + flen
           in TupleEncodingHelper_get_payload_length_ptr (N + 1) [] m charptr
      else 0)"
  by pat_completeness auto
termination
  by (relation "measures [\<lambda>x. case x of Inl (T, m, ptr) \<Rightarrow> 2 * size T
                                       | Inr (N, Ts, m, ptr) \<Rightarrow> 2 * size_list size Ts + 1,
                           \<lambda>x. case x of Inl (T, m, ptr) \<Rightarrow> 0 | Inr (N, Ts, m, ptr) \<Rightarrow> length Ts - N]")
     (auto simp: less_Suc_eq_le size_list_estimation' [OF nth_mem order_refl])

declare TupleEncodingHelper_get_payload_length_ptr.simps [simp del]

function InlineEncoder_encode :: "ty \<Rightarrow> val \<Rightarrow> memory \<Rightarrow> addr \<Rightarrow> memory \<times> addr"
  and TupleEncodingHelper_encode :: "nat \<Rightarrow> ty list \<Rightarrow> val list \<Rightarrow> memory \<Rightarrow> addr \<Rightarrow> memory \<times> addr" where
  "InlineEncoder_encode (TScalar T) value m dest = AssignmentEncoder_encode T value m dest"
| "InlineEncoder_encode TString value m dest = InlineEncoder_string_encode value m dest"
| "InlineEncoder_encode (TTuple Types) value m dest =
     TupleEncodingHelper_encode 0 Types (tuple_fields value) m dest"
| "TupleEncodingHelper_encode N Ts t m dest =
     (if N < length Ts
      then let (m, next) = InlineEncoder_encode (Ts ! N) (t ! N) m dest
           in TupleEncodingHelper_encode (N + 1) Ts t m next
      else (m, dest))"
  by pat_completeness auto
termination
  by (relation "measures [\<lambda>x. case x of Inl (T, v, m, dest) \<Rightarrow> 2 * size T
                                       | Inr (N, Ts, t, m, dest) \<Rightarrow> 2 * size_list size Ts + 1,
                           \<lambda>x. case x of Inl (T, v, m, dest) \<Rightarrow> 0 | Inr (N, Ts, t, m, dest) \<Rightarrow> length Ts - N]")
     (auto simp: less_Suc_eq_le size_list_estimation' [OF nth_mem order_refl])

declare TupleEncodingHelper_encode.simps [simp del]

text \<open>\<^verbatim>\<open>std::tuple<T...>{}\<close>: a value-initialised object.\<close>

fun default_val :: "ty \<Rightarrow> val" where
  "default_val (TScalar T) = VScalar (replicate (sizeof T) 0)"
| "default_val TString = VString []"
| "default_val (TTuple Ts) = VTuple (map default_val Ts)"

text \<open>
  Decoding returns a third component: the objects that the call has allocated with
  \<^verbatim>\<open>new\<close> and that nothing owns when it returns. In the helper, \<open>t\<close> is a
  pointer passed by value: when it is null the caller's pointer stays null and the tuple
  allocated here, after the remaining fields have been decoded into it, is such an object.
  \<^verbatim>\<open>&std::get<N>(*t)\<close> points to field \<open>N\<close> of the tuple, so the field
  decoder's output replaces that field.
\<close>

function InlineEncoder_decode :: "ty \<Rightarrow> memory \<Rightarrow> addr \<Rightarrow> val option \<Rightarrow> addr \<times> val option \<times> val list"
  and TupleEncodingHelper_decode ::
    "nat \<Rightarrow> ty list \<Rightarrow> memory \<Rightarrow> addr \<Rightarrow> val list option \<Rightarrow> addr \<times> val list option \<times> val list" where
  "InlineEncoder_decode (TScalar T) m src value_p =
     (let (end, value_p) = AssignmentEncoder_decode T m src value_p in (end, value_p, []))"
| "InlineEncoder_decode TString m src value_p =
     (let (end, value_p) = InlineEncoder_string_decode m src value_p in (end, value_p, []))"
| "InlineEncoder_decode (TTuple Types) m src value_p =
     (let (end, t, unowned) = TupleEncodingHelper_decode 0 Types m src (map_option tuple_fields value_p)
      in (end, map_option VTuple t, unowned))"
| "TupleEncodingHelper_decode N Ts m src t =
     (if N < length Ts
      then let (obj, allocated) = (case t of None \<Rightarrow> (map default_val Ts, True)
                                   | Some fields \<Rightarrow> (fields, False));
               (next, field, unowned1) = InlineEncoder_decode (Ts ! N) m src (Some (obj ! N));
               obj = (case field of None \<Rightarrow> obj | Some f \<Rightarrow> obj[N := f]);
               (end, obj, unowned2) = TupleEncodingHelper_decode (N + 1) Ts m next (Some obj)
           in if allocated
              then (end, None, unowned1 @ unowned2 @ (case obj of None \<Rightarrow> [] | Some fields \<Rightarrow> [VTuple fields]))
              else (end, obj, unowned1 @ unowned2)
      else (src, t, []))"
  by pat_completeness auto
termination
  by (relation "measures [\<lambda>x. case x of Inl (T, m, src, value_p) \<Rightarrow> 2 * size T
                                       | Inr (N, Ts, m, src, t) \<Rightarrow> 2 * size_list size Ts + 1,
                           \<lambda>x. case x of Inl (T, m, src, value_p) \<Rightarrow> 0 | Inr (N, Ts, m, src, t) \<Rightarrow> length Ts - N]")
     (auto simp: less_Suc_eq_le size_list_estimation' [OF nth_mem order_refl])

declare TupleEncodingHelper_decode.simps [simp del]

subsection \<open>\<^verbatim>\<open>CompoundEncoder<KeyEncoder, ValueEncoder, PMNK_Type>\<close>\<close>

text \<open>
  The encoder classes that instantiate the template parameters \<open>KeyEncoder\<close> and
  \<open>ValueEncoder\<close>, the member \<^verbatim>\<open>Type\<close> of each, and the calls of their static
  member functions. (The tuple specialisation of \<^verbatim>\<open>InlineEncoder\<close> declares no
  member \<open>Type\<close>; \<open>Type\<close> gives the encoded type for it as for the others.)
\<close>

datatype encoder = DummyEncoder ty | AssignmentEncoder scalar_t | InlineEncoder ty

fun Type :: "encoder \<Rightarrow> ty" where
  "Type (DummyEncoder T) = T"
| "Type (AssignmentEncoder T) = TScalar T"
| "Type (InlineEncoder T) = T"

fun encoder_get_payload_length :: "encoder \<Rightarrow> val \<Rightarrow> nat" where
  "encoder_get_payload_length (DummyEncoder T) value = DummyEncoder_get_payload_length value"
| "encoder_get_payload_length (AssignmentEncoder T) value = AssignmentEncoder_get_payload_length T value"
| "encoder_get_payload_length (InlineEncoder T) value = InlineEncoder_get_payload_length T value"

fun encoder_get_payload_length_ptr :: "encoder \<Rightarrow> memory \<Rightarrow> addr \<Rightarrow> nat" where
  "encoder_get_payload_length_ptr (DummyEncoder T) m ptr = DummyEncoder_get_payload_length_ptr m ptr"
| "encoder_get_payload_length_ptr (AssignmentEncoder T) m ptr = AssignmentEncoder_get_payload_length_ptr T m ptr"
| "encoder_get_payload_length_ptr (InlineEncoder T) m ptr = InlineEncoder_get_payload_length_ptr T m ptr"

fun encoder_encode :: "encoder \<Rightarrow> val \<Rightarrow> memory \<Rightarrow> addr \<Rightarrow> memory \<times> addr" where
  "encoder_encode (DummyEncoder T) value m dest = DummyEncoder_encode value m dest"
| "encoder_encode (AssignmentEncoder T) value m dest = AssignmentEncoder_encode T value m dest"
| "encoder_encode (InlineEncoder T) value m dest = InlineEncoder_encode T value m dest"

fun encoder_decode :: "encoder \<Rightarrow> memory \<Rightarrow> addr \<Rightarrow> val option \<Rightarrow> addr \<times> val option \<times> val list" where
  "encoder_decode (DummyEncoder T) m src value_p =
     (let (end, value_p) = DummyEncoder_decode m src value_p in (end, value_p, []))"
| "encoder_decode (AssignmentEncoder T) m src value_p =
     (let (end, value_p) = AssignmentEncoder_decode T m src value_p in (end, value_p, []))"
| "encoder_decode (InlineEncoder T) m src value_p = InlineEncoder_decode T m src value_p"

definition ActualKeyEncoder :: "encoder \<Rightarrow> scalar_t \<Rightarrow> encoder" where
  "ActualKeyEncoder KeyEncoder PMNK_Type =
     (if Type KeyEncoder = TScalar PMNK_Type then DummyEncoder (Type KeyEncoder) else KeyEncoder)"

text \<open>\<open>CompoundEncoder\<close> inherits \<^verbatim>\<open>PMNKEncoder<typename KeyEncoder::Type, PMNK_Type>\<close>.\<close>

definition CompoundEncoder_get_pmnk :: "encoder \<Rightarrow> scalar_t \<Rightarrow> (nat \<Rightarrow> byte) \<Rightarrow> val \<Rightarrow> val" where
  "CompoundEncoder_get_pmnk KeyEncoder PMNK_Type junk key = get_pmnk (Type KeyEncoder) PMNK_Type junk key"

definition CompoundEncoder_get_payload_length :: "encoder \<Rightarrow> encoder \<Rightarrow> scalar_t \<Rightarrow> val \<Rightarrow> val \<Rightarrow> nat" where
  "CompoundEncoder_get_payload_length KeyEncoder ValueEncoder PMNK_Type key value =
     encoder_get_payload_length (ActualKeyEncoder KeyEncoder PMNK_Type) key
     + encoder_get_payload_length ValueEncoder value"

definition CompoundEncoder_get_payload_length_ptr ::
    "encoder \<Rightarrow> encoder \<Rightarrow> scalar_t \<Rightarrow> memory \<Rightarrow> addr \<Rightarrow> nat" where
  "CompoundEncoder_get_payload_length_ptr KeyEncoder ValueEncoder PMNK_Type m addr =
     (let ksize = encoder_get_payload_length_ptr (ActualKeyEncoder KeyEncoder PMNK_Type) m addr;
          p = addr + ksize;
          vsize = encoder_get_payload_length_ptr ValueEncoder m p
      in ksize + vsize)"

definition CompoundEncoder_encode ::
    "encoder \<Rightarrow> encoder \<Rightarrow> scalar_t \<Rightarrow> val \<Rightarrow> val \<Rightarrow> memory \<Rightarrow> addr \<Rightarrow> memory" where
  "CompoundEncoder_encode KeyEncoder ValueEncoder PMNK_Type key value m dest =
     (let p = dest;
          (m, p) = encoder_encode (ActualKeyEncoder KeyEncoder PMNK_Type) key m p;
          (m, end) = encoder_encode ValueEncoder value m p
      in m)"

text \<open>
  \<^verbatim>\<open>CompoundEncoder::decode\<close> returns nothing; its effect is the state of the objects
  that \<open>key\<close> and \<open>value\<close> point to. The header \<^verbatim>\<open>assertions.h\<close> that declares
  \<^verbatim>\<open>assert<1>\<close> is not part of the sources at hand: \<open>assert_active\<close> says whether
  the assertion is checked in the build. When it is not, the assignment
  \<^verbatim>\<open>*key = *pmnk\<close> dereferences \<open>pmnk\<close> as it is.
\<close>

datatype error = AssertionFailure | NullPointerDereference

definition CompoundEncoder_decode ::
    "encoder \<Rightarrow> encoder \<Rightarrow> scalar_t \<Rightarrow> bool \<Rightarrow> memory \<Rightarrow> addr
      \<Rightarrow> val option \<Rightarrow> val option \<Rightarrow> val option \<Rightarrow> error + (val option \<times> val option \<times> val list)" where
  "CompoundEncoder_decode KeyEncoder ValueEncoder PMNK_Type assert_active m src key value pmnk =
     (let p = src;
          (p, key, unowned1) = encoder_decode (ActualKeyEncoder KeyEncoder PMNK_Type) m p key;
          (end, value, unowned2) = encoder_decode ValueEncoder m p value
      in if key \<noteq> None \<and> Type KeyEncoder = TScalar PMNK_Type
         then (case pmnk of
                 None \<Rightarrow> Inl (if assert_active then AssertionFailure else NullPointerDereference)
               | Some x \<Rightarrow> Inr (Some x, value, unowned1 @ unowned2))
         else Inr (key, value, unowned1 @ unowned2))"

text \<open>A call \<^verbatim>\<open>decode(src, key)\<close> takes the default arguments \<^verbatim>\<open>value = nullptr, pmnk = nullptr\<close>.\<close>

definition CompoundEncoder_decode_default_args ::
    "encoder \<Rightarrow> encoder \<Rightarrow> scalar_t \<Rightarrow> bool \<Rightarrow> memory \<Rightarrow> addr
      \<Rightarrow> val option \<Rightarrow> error + (val option \<times> val option \<times> val list)" where
  "CompoundEncoder_decode_default_args KeyEncoder ValueEncoder PMNK_Type assert_active m src key =
     CompoundEncoder_decode KeyEncoder ValueEncoder PMNK_Type assert_active m src key None None"

section \<open>The specification's notions\<close>

text \<open>
  The wire format as the specification words it: a fixed-size scalar is copied bit by
  bit, a byte string is a 16-bit little-endian length followed by its bytes, a tuple is the
  concatenation of its encoded fields in order.
\<close>

fun wire_format :: "val \<Rightarrow> byte list" where
  "wire_format (VScalar bs) = bs"
| "wire_format (VString s) = [of_nat (length s mod 256), of_nat (length s div 256 mod 256)] @ s"
| "wire_format (VTuple vs) = concat (map wire_format vs)"

text \<open>Every byte string inside a value is shorter than \<open>2 ^ 16\<close> bytes.\<close>

fun lengths_fit :: "val \<Rightarrow> bool" where
  "lengths_fit (VScalar bs) = True"
| "lengths_fit (VString s) = (length s < 2 ^ 16)"
| "lengths_fit (VTuple vs) = list_all lengths_fit vs"

text \<open>
  The first \<open>n\<close> bytes of a string, padded with zero bytes on the right when the
  string is shorter; the unsigned integer that a sequence of bytes denotes when its first
  byte is the most significant one; the big-endian representation in \<open>n\<close> bytes of a
  number.
\<close>

definition zero_padded_prefix :: "nat \<Rightarrow> byte list \<Rightarrow> byte list" where
  "zero_padded_prefix n s = take n s @ replicate (n - length s) 0"

definition big_endian_value :: "byte list \<Rightarrow> nat" where
  "big_endian_value bs = foldl (\<lambda>acc b. 256 * acc + unat b) 0 bs"

definition big_endian_bytes :: "nat \<Rightarrow> nat \<Rightarrow> byte list" where
  "big_endian_bytes n v = map (\<lambda>i. of_nat (v div 256 ^ (n - 1 - i) mod 256)) [0..<n]"

text \<open>
  The order of keys: unsigned scalars by their value, byte strings lexicographically
  with bytes compared as unsigned, as \<^verbatim>\<open>operator<\<close> of the key types does.
\<close>

fun key_less :: "val \<Rightarrow> val \<Rightarrow> bool" where
  "key_less (VScalar a) (VScalar b) = (uint_value a < uint_value b)"
| "key_less (VString s) (VString t) = (s < t)"
| "key_less _ _ = False"

text \<open>
  The value of a signed scalar from its representation (two's complement, least
  significant byte first): \<^verbatim>\<open>operator<\<close> of a signed key type compares these.
\<close>

definition sint_value :: "byte list \<Rightarrow> int" where
  "sint_value bs =
     (if uint_value bs < 2 ^ (8 * length bs - 1) then int (uint_value bs)
      else int (uint_value bs) - 2 ^ (8 * length bs))"

text \<open>The unsigned integer that a poor man's normalized key holds.\<close>

definition pmnk_value :: "val \<Rightarrow> nat" where
  "pmnk_value p = uint_value (scalar_bytes p)"

text \<open>The key types for which the order of keys is defined above.\<close>

fun supported_key_type :: "ty \<Rightarrow> bool" where
  "supported_key_type (TScalar (Unsigned n)) = True"
| "supported_key_type TString = True"
| "supported_key_type _ = False"

section \<open>Example inputs\<close>

text \<open>Two possible contents of an uninitialised local variable, and a memory of zeros.\<close>

definition junk_a :: "nat \<Rightarrow> byte" where
  "junk_a i = 0xAA"

definition junk_b :: "nat \<Rightarrow> byte" where
  "junk_b i = of_nat i"

definition blank_memory :: memory where
  "blank_memory a = 0"

section \<open>Memory and integer representation\<close>

lemma length_uint_bytes [simp]: "length (uint_bytes n v) = n"
  by (induction n arbitrary: v) auto

lemma unat_byte_bound: "unat (b :: byte) < 256"
proof -
  have "unat b < 2 ^ LENGTH(8)" by (rule unsigned_less)
  then show ?thesis by simp
qed

lemma uint_value_append: "uint_value (xs @ ys) = uint_value xs + 256 ^ length xs * uint_value ys"
  by (induction xs) (auto simp: algebra_simps)

lemma uint_value_bound: "uint_value bs < 256 ^ length bs"
proof (induction bs)
  case Nil
  then show ?case by simp
next
  case (Cons b bs)
  with unat_byte_bound [of b] show ?case by simp
qed

lemma uint_value_uint_bytes: "uint_value (uint_bytes n v) = v mod 256 ^ n"
proof (induction n arbitrary: v)
  case 0
  then show ?case by simp
next
  case (Suc n)
  have "unat (of_nat (v mod 256) :: byte) = v mod 256"
    by (simp add: unat_of_nat)
  moreover have "v mod (256 * 256 ^ n) = v mod 256 + 256 * (v div 256 mod 256 ^ n)"
    by (simp add: mod_mult2_eq)
  ultimately show ?case
    using Suc [of "v div 256"] by simp
qed

lemma unat_byte_mod: "unat (b :: byte) mod 256 = unat b"
  using unat_byte_bound [of b] by simp

lemma uint_value_Cons_mod: "(unat (b :: byte) + 256 * x) mod 256 = unat b"
  using unat_byte_bound [of b] by simp

lemma uint_value_Cons_div: "(unat (b :: byte) + 256 * x) div 256 = x"
  using unat_byte_bound [of b] by simp

lemma uint_bytes_uint_value: "uint_bytes (length bs) (uint_value bs) = bs"
proof (induction bs)
  case Nil
  then show ?case by simp
next
  case (Cons b bs)
  have "uint_bytes (length (b # bs)) (uint_value (b # bs))
        = of_nat (uint_value (b # bs) mod 256) # uint_bytes (length bs) (uint_value (b # bs) div 256)"
    by (simp only: list.size uint_bytes.simps add_Suc_right add_0_right One_nat_def)
  also have "uint_value (b # bs) mod 256 = unat b"
    by (simp add: unat_byte_mod)
  also have "uint_value (b # bs) div 256 = uint_value bs"
    by (simp add: uint_value_Cons_div)
  also have "uint_bytes (length bs) (uint_value bs) = bs"
    by (rule Cons.IH)
  finally show ?case by simp
qed

lemma uint_value_drop: "uint_value (drop d bs) = uint_value bs div 256 ^ d"
proof (induction bs arbitrary: d)
  case Nil
  then show ?case by simp
next
  case (Cons b bs)
  show ?case
  proof (cases d)
    case 0
    then show ?thesis by simp
  next
    case (Suc e)
    have step: "uint_value (b # bs) div 256 ^ Suc e = uint_value bs div 256 ^ e"
    proof -
      have "uint_value (b # bs) div 256 ^ Suc e = (uint_value (b # bs) div 256) div 256 ^ e"
        by (simp only: power_Suc div_mult2_eq)
      also have "uint_value (b # bs) div 256 = uint_value bs"
        by (simp add: uint_value_Cons_div)
      finally show ?thesis .
    qed
    have "uint_value (drop d (b # bs)) = uint_value (drop e bs)"
      using Suc by simp
    also have "\<dots> = uint_value bs div 256 ^ e"
      by (rule Cons.IH)
    also have "\<dots> = uint_value (b # bs) div 256 ^ d"
      unfolding Suc by (rule step [symmetric])
    finally show ?thesis .
  qed
qed

lemma uint_bytes_zero: "uint_bytes n 0 = replicate n 0"
  by (induction n) auto

lemma uint_value_replicate_zero: "uint_value (replicate n 0) = 0"
  by (induction n) auto

lemma uint_value_nth:
  assumes "j < length bs"
  shows "uint_value bs div 256 ^ j mod 256 = unat (bs ! j)"
proof -
  have "drop j bs = bs ! j # drop (Suc j) bs"
    using assms by (simp add: Cons_nth_drop_Suc)
  then have "uint_value (drop j bs) mod 256 = unat (bs ! j)"
    by (simp add: unat_byte_mod)
  then show ?thesis by (simp add: uint_value_drop)
qed

lemma big_endian_bytes_uint_value: "big_endian_bytes (length bs) (uint_value bs) = rev bs"
proof (rule nth_equalityI)
  show "length (big_endian_bytes (length bs) (uint_value bs)) = length (rev bs)"
    by (simp add: big_endian_bytes_def)
next
  fix i
  assume "i < length (big_endian_bytes (length bs) (uint_value bs))"
  then have i: "i < length bs" by (simp add: big_endian_bytes_def)
  then have "length bs - 1 - i < length bs" by simp
  then have "uint_value bs div 256 ^ (length bs - 1 - i) mod 256 = unat (bs ! (length bs - 1 - i))"
    by (rule uint_value_nth)
  moreover have "length bs - 1 - i = length bs - Suc i" by simp
  ultimately show "big_endian_bytes (length bs) (uint_value bs) ! i = rev bs ! i"
    using i by (simp add: big_endian_bytes_def rev_nth)
qed

lemma foldl_big_endian:
  "foldl (\<lambda>acc b. 256 * acc + unat (b :: byte)) a bs = a * 256 ^ length bs + uint_value (rev bs)"
  by (induction bs arbitrary: a) (auto simp: uint_value_append algebra_simps)

lemma big_endian_value_rev: "big_endian_value bs = uint_value (rev bs)"
  by (simp add: big_endian_value_def foldl_big_endian)

section \<open>Byte swapping and prefix extraction\<close>

lemma swap_loop_eq:
  "k \<le> length source \<Longrightarrow> length dest = length source \<Longrightarrow>
   swap_loop source dest k = take k dest @ drop k (rev source)"
proof (induction source dest k rule: swap_loop.induct)
  case (1 source dest k)
  show ?case
  proof (cases "k < length source")
    case True
    let ?x = "source ! (length source - k - 1)"
    have "swap_loop source dest k = swap_loop source (dest[k := ?x]) (k + 1)"
      using True by (subst swap_loop.simps) simp
    also have "\<dots> = take (k + 1) (dest[k := ?x]) @ drop (k + 1) (rev source)"
      using True "1.prems" by (intro "1.IH") auto
    also have "take (k + 1) (dest[k := ?x]) = take k dest @ [?x]"
      using True "1.prems" by (simp add: take_Suc_conv_app_nth)
    also have "?x = rev source ! k"
      using True by (simp add: rev_nth)
    finally show ?thesis
      using True by (simp add: Cons_nth_drop_Suc)
  next
    case False
    with "1.prems" show ?thesis by (subst swap_loop.simps) simp
  qed
qed

lemma by_value_all: "length obj \<le> vb \<Longrightarrow> by_value vb pad obj = obj"
  by (simp add: by_value_def)

lemma length_by_value: "length (by_value vb pad obj) = length obj"
  by (simp add: by_value_def)

lemma swap_endianness_rev: "length u = vb \<Longrightarrow> swap_endianness vb pad_in pad_out u = rev u"
  by (simp add: swap_endianness_def by_value_all swap_loop_eq Let_def)

lemma PoormanPrefixing_drop:
  assumes "sp \<le> length key"
  shows "PoormanPrefixing sp junk key = drop (length key - sp) key"
proof -
  have "take sp (rev (take sp (rev key)) @ drop sp (rev key)) = rev (take sp (rev key))"
    using assms by simp
  also have "\<dots> = drop (length key - sp) key"
    by (simp add: take_rev)
  finally show ?thesis
    using assms by (simp add: PoormanPrefixing_def swap_endianness_rev Let_def)
qed

lemma PoormanPrefixing_any_junk: "PoormanPrefixing sp j1 key = PoormanPrefixing sp j2 key"
proof (cases "sp \<le> length key")
  case True
  then show ?thesis by (simp add: PoormanPrefixing_drop)
next
  case False
  then show ?thesis by (simp add: PoormanPrefixing_def)
qed

lemma PoormanPrefixing_string_rev:
  "PoormanPrefixing_string sp junk key = rev (take sp key @ replicate (sp - length key) 0)"
proof (cases "length key < sp")
  case True
  then have "length (key @ replicate (sp - length key) (0 :: byte)) = sp" by simp
  then have "swap_endianness sp junk junk (key @ replicate (sp - length key) 0)
             = rev (key @ replicate (sp - length key) 0)"
    by (rule swap_endianness_rev)
  with True show ?thesis
    by (simp add: PoormanPrefixing_string_def uint_bytes_zero Let_def)
next
  case False
  then have "length (take sp key) = sp" by simp
  then have "swap_endianness sp junk junk (take sp key) = rev (take sp key)"
    by (rule swap_endianness_rev)
  with False show ?thesis
    by (simp add: PoormanPrefixing_string_def Let_def)
qed

lemma length_zero_padded_prefix: "length (zero_padded_prefix n s) = n"
  by (simp add: zero_padded_prefix_def)

lemma zero_padded_prefix_Nil: "zero_padded_prefix n [] = replicate n 0"
  by (simp add: zero_padded_prefix_def)

lemma zero_padded_prefix_Cons: "zero_padded_prefix (Suc n) (b # bs) = b # zero_padded_prefix n bs"
  by (simp add: zero_padded_prefix_def)

lemma big_endian_value_Nil: "big_endian_value [] = 0"
  by (simp add: big_endian_value_def)

lemma big_endian_value_Cons: "big_endian_value (b # bs) = unat b * 256 ^ length bs + big_endian_value bs"
  by (simp add: big_endian_value_rev uint_value_append)

lemma big_endian_value_replicate_zero: "big_endian_value (replicate n 0) = 0"
  by (simp add: big_endian_value_rev uint_value_replicate_zero)

lemma big_endian_value_bound: "big_endian_value bs < 256 ^ length bs"
  using uint_value_bound [of "rev bs"] by (simp add: big_endian_value_rev)

lemma padded_prefix_mono:
  "s < t \<Longrightarrow> big_endian_value (zero_padded_prefix n s) \<le> big_endian_value (zero_padded_prefix n t)"
proof (induction n arbitrary: s t)
  case 0
  then show ?case by (simp add: zero_padded_prefix_def big_endian_value_Nil)
next
  case (Suc n)
  show ?case
  proof (cases s)
    case Nil
    have "big_endian_value (zero_padded_prefix (Suc n) s) = 0"
      unfolding Nil zero_padded_prefix_Nil by (rule big_endian_value_replicate_zero)
    then show ?thesis by simp
  next
    case s: (Cons a as)
    with Suc.prems obtain b bs where t: "t = b # bs" by (cases t) auto
    let ?A = "big_endian_value (zero_padded_prefix n as)"
    let ?B = "big_endian_value (zero_padded_prefix n bs)"
    have lhs: "big_endian_value (zero_padded_prefix (Suc n) s) = unat a * 256 ^ n + ?A"
      by (simp add: s zero_padded_prefix_Cons big_endian_value_Cons length_zero_padded_prefix)
    have rhs: "big_endian_value (zero_padded_prefix (Suc n) t) = unat b * 256 ^ n + ?B"
      by (simp add: t zero_padded_prefix_Cons big_endian_value_Cons length_zero_padded_prefix)
    from Suc.prems s t consider "a < b" | "a = b" "as < bs" by auto
    then show ?thesis
    proof cases
      case 1
      then have "unat a + 1 \<le> unat b" by (simp add: word_less_nat_alt)
      then have "(unat a + 1) * 256 ^ n \<le> unat b * 256 ^ n" by (rule mult_le_mono1)
      moreover have "?A < 256 ^ n"
        using big_endian_value_bound [of "zero_padded_prefix n as"] by (simp add: length_zero_padded_prefix)
      ultimately have "unat a * 256 ^ n + ?A \<le> unat b * 256 ^ n + ?B"
        by (simp add: algebra_simps)
      then show ?thesis by (simp only: lhs rhs)
    next
      case 2
      then have "?A \<le> ?B" using Suc.IH [of as bs] by simp
      with 2 show ?thesis by (simp add: lhs rhs)
    qed
  qed
qed

lemma padded_prefix_mono_le:
  "s \<le> t \<Longrightarrow> big_endian_value (zero_padded_prefix n s) \<le> big_endian_value (zero_padded_prefix n t)"
  using padded_prefix_mono [of s t n] by (cases "s = t") auto

lemma PoormanPrefixing_string_value:
  "uint_value (PoormanPrefixing_string sp junk key) = big_endian_value (zero_padded_prefix sp key)"
  by (simp add: PoormanPrefixing_string_rev big_endian_value_rev zero_padded_prefix_def)


lemma get_pmnk_string:
  "get_pmnk TString P junk (VString s) = VScalar (PoormanPrefixing_string (sizeof P) junk s)"
  by (simp add: get_pmnk_def string_bytes_def)

lemma get_pmnk_same: "get_pmnk (TScalar P) P junk key = key"
  by (simp add: get_pmnk_def NoPrefixing_def)

lemma get_pmnk_scalar:
  "TScalar P \<noteq> TScalar T \<Longrightarrow> sizeof P \<le> length key \<Longrightarrow>
   get_pmnk (TScalar T) P junk (VScalar key) = VScalar (drop (length key - sizeof P) key)"
  by (simp add: get_pmnk_def scalar_bytes_def PoormanPrefixing_drop)

lemma pmnk_value_VScalar: "pmnk_value (VScalar bs) = uint_value bs"
  by (simp add: pmnk_value_def scalar_bytes_def)


lemma swap_zero_padded_prefix:
  "swap_endianness sp pad_in pad_out (zero_padded_prefix sp key) = rev (zero_padded_prefix sp key)"
  by (rule swap_endianness_rev) (rule length_zero_padded_prefix)

lemma PoormanPrefixing_string_swap:
  "PoormanPrefixing_string sp junk key = swap_endianness sp pad_in pad_out (zero_padded_prefix sp key)"
  unfolding swap_zero_padded_prefix by (simp add: PoormanPrefixing_string_rev zero_padded_prefix_def)

text \<open>
  Claim C10 as stated fails for a scalar type with padding bytes. For a
  \<^verbatim>\<open>long double\<close> of x86-64 (16 bytes, of which the first 10 hold the value) the
  first swap moves the six low bytes of the value into the padding, where returning by
  value loses them: after the second swap only bytes 6 to 9 of the value are those of
  \<open>u\<close>, and bytes 0 to 5 come from the padding.
\<close>

theorem swap_endianness_padding_counterexample:
  "take 10 (swap_endianness 10 junk_a junk_a
      (swap_endianness 10 junk_a junk_a [1, 2, 3, 4, 5, 6, 7, 8, 9, 10, 0, 0, 0, 0, 0, 0]))
   = [0xAA, 0xAA, 0xAA, 0xAA, 0xAA, 0xAA, 7, 8, 9, 10]
   \<and> [0xAA, 0xAA, 0xAA, 0xAA, 0xAA, 0xAA, 7, 8, 9, 10]
       \<noteq> take 10 [1, 2, 3, 4, 5, 6, 7, 8, 9, 10, 0, 0, 0, 0, 0, 0 :: byte]"
  by code_simp

text \<open>
  Claim C10, amended: \<open>swap_endianness\<close> is an involution on every scalar type
  without padding bytes, whatever its size: when all \<^verbatim>\<open>sizeof(T)\<close> bytes of the
  representation hold the value, swapping twice gives the representation back.
\<close>

theorem swap_endianness_involution:
  assumes "length u = vb"
  shows "swap_endianness vb pad3 pad4 (swap_endianness vb pad1 pad2 u) = u"
proof -
  have "swap_endianness vb pad1 pad2 u = rev u"
    using assms by (rule swap_endianness_rev)
  moreover have "swap_endianness vb pad3 pad4 (rev u) = rev (rev u)"
    by (rule swap_endianness_rev) (simp add: assms)
  ultimately show ?thesis by simp
qed

text \<open>A 4-byte scalar without padding.\<close>

theorem swap_endianness_involution_witness:
  "length [0x78, 0x56, 0x34, 0x12 :: byte] = 4
   \<and> swap_endianness 4 junk_a junk_b [0x78, 0x56, 0x34, 0x12] = [0x12, 0x34, 0x56, 0x78]
   \<and> swap_endianness 4 junk_b junk_a (swap_endianness 4 junk_a junk_b [0x78, 0x56, 0x34, 0x12])
       = [0x78, 0x56, 0x34, 0x12]"
proof -
  have h: "length [0x78, 0x56, 0x34, 0x12 :: byte] = 4" by simp
  have once: "swap_endianness 4 junk_a junk_b [0x78, 0x56, 0x34, 0x12] = [0x12, 0x34, 0x56, 0x78]"
    using swap_endianness_rev [OF h, of junk_a junk_b] by simp
  from h once swap_endianness_involution [OF h, of junk_b junk_a junk_a junk_b]
  show ?thesis by blast
qed

text \<open>
  Claim C4: for a byte-string key the extracted prefix is the first
  \<^verbatim>\<open>sizeof(PMNK_Type)\<close> bytes of the key, padded with zero bytes on the right when the
  key is shorter, byte-swapped into the native order: read as an unsigned integer, the
  first byte of the key is its most significant byte. The indeterminate initial contents
  of the local union do not matter.
\<close>

theorem string_pmnk_is_padded_prefix:
  "get_pmnk TString P junk (VString s)
     = VScalar (swap_endianness (sizeof P) pad_in pad_out (zero_padded_prefix (sizeof P) s))
   \<and> length (zero_padded_prefix (sizeof P) s) = sizeof P
   \<and> pmnk_value (get_pmnk TString P junk (VString s)) = big_endian_value (zero_padded_prefix (sizeof P) s)"
  by (simp add: get_pmnk_string pmnk_value_VScalar PoormanPrefixing_string_swap [of _ _ _ pad_in pad_out]
      length_zero_padded_prefix swap_zero_padded_prefix big_endian_value_rev)

lemma supported_key_type_cases:
  "supported_key_type K \<Longrightarrow> (\<exists>n. K = TScalar (Unsigned n)) \<or> K = TString"
  by (cases K rule: supported_key_type.cases) auto

lemma scalar_pmnk_order:
  assumes "length a = n" "length b = n"
    and "TScalar P = TScalar (Unsigned n) \<or> sizeof P \<le> n"
  shows "(uint_value a \<le> uint_value b \<longrightarrow>
            pmnk_value (get_pmnk (TScalar (Unsigned n)) P j1 (VScalar a))
            \<le> pmnk_value (get_pmnk (TScalar (Unsigned n)) P j2 (VScalar b)))"
proof (cases "TScalar P = TScalar (Unsigned n)")
  case True
  then show ?thesis by (simp add: get_pmnk_same pmnk_value_VScalar)
next
  case False
  with assms have "sizeof P \<le> length a" "sizeof P \<le> length b" by auto
  with False show ?thesis
    by (simp add: get_pmnk_scalar pmnk_value_VScalar uint_value_drop assms(1,2) div_le_mono)
qed

lemma string_pmnk_order:
  "s \<le> t \<Longrightarrow> pmnk_value (get_pmnk TString P j1 (VString s)) \<le> pmnk_value (get_pmnk TString P j2 (VString t))"
  by (simp add: get_pmnk_string pmnk_value_VScalar PoormanPrefixing_string_value padded_prefix_mono_le)

lemma pmnk_order_le:
  assumes "supported_key_type K" "has_type k1 K" "has_type k2 K"
    and "TScalar P = K \<or> K = TString \<or> PoormanPrefixing_static_assert K P"
    and "key_less k1 k2 \<or> k1 = k2"
  shows "pmnk_value (get_pmnk K P j1 k1) \<le> pmnk_value (get_pmnk K P j2 k2)"
proof -
  from assms(1) consider n where "K = TScalar (Unsigned n)" | "K = TString"
    using supported_key_type_cases by blast
  then show ?thesis
  proof cases
  case (1 n)
  with assms(2,3) obtain a b where k: "k1 = VScalar a" "k2 = VScalar b" "length a = n" "length b = n"
    by (cases k1; cases k2) auto
  from assms(4) 1 have "TScalar P = TScalar (Unsigned n) \<or> sizeof P \<le> n"
    by (auto simp: PoormanPrefixing_static_assert_def)
  moreover from assms(5) k have "uint_value a \<le> uint_value b" by auto
  ultimately show ?thesis
    using scalar_pmnk_order [of a n b P j1 j2] k 1 by simp
next
  case 2
  with assms(2,3) obtain s t where k: "k1 = VString s" "k2 = VString t"
    by (cases k1; cases k2) auto
  with assms(5) have "s \<le> t" by auto
  then show ?thesis unfolding 2 k by (rule string_pmnk_order)
qed
qed

lemma key_less_total:
  assumes "supported_key_type K" "has_type k1 K" "has_type k2 K"
  shows "key_less k1 k2 \<or> k1 = k2 \<or> key_less k2 k1"
proof -
  from assms(1) consider n where "K = TScalar (Unsigned n)" | "K = TString"
    using supported_key_type_cases by blast
  then show ?thesis
  proof cases
  case (1 n)
  with assms(2,3) obtain a b where k: "k1 = VScalar a" "k2 = VScalar b" "length a = n" "length b = n"
    by (cases k1; cases k2) auto
  have "a = b" if "uint_value a = uint_value b"
    using uint_bytes_uint_value [of a] uint_bytes_uint_value [of b] k that by simp
  then show ?thesis using k by auto
next
  case 2
  with assms(2,3) obtain s t where k: "k1 = VString s" "k2 = VString t"
    by (cases k1; cases k2) auto
  then show ?thesis by auto
qed
qed

text \<open>
  Claim C1: prefix extraction preserves the order of keys. For two keys of an unsigned
  scalar type or two byte strings, \<open>k1 < k2\<close> implies that the prefix of \<open>k1\<close> is
  at most the prefix of \<open>k2\<close> as unsigned integers; equal keys have equal prefixes;
  and a strictly smaller prefix implies a strictly smaller key, so only equal prefixes
  need a comparison of the full keys.
\<close>

theorem pmnk_order_preserving:
  assumes "supported_key_type K" "has_type k1 K" "has_type k2 K"
    and "TScalar P = K \<or> K = TString \<or> PoormanPrefixing_static_assert K P"
  shows "(key_less k1 k2 \<longrightarrow> pmnk_value (get_pmnk K P j1 k1) \<le> pmnk_value (get_pmnk K P j2 k2))
       \<and> (k1 = k2 \<longrightarrow> get_pmnk K P j1 k1 = get_pmnk K P j2 k2)
       \<and> (pmnk_value (get_pmnk K P j1 k1) < pmnk_value (get_pmnk K P j2 k2) \<longrightarrow> key_less k1 k2)"
proof (intro conjI impI)
  assume "key_less k1 k2"
  then show "pmnk_value (get_pmnk K P j1 k1) \<le> pmnk_value (get_pmnk K P j2 k2)"
    using assms by (intro pmnk_order_le) auto
next
  assume eq: "k1 = k2"
  show "get_pmnk K P j1 k1 = get_pmnk K P j2 k2"
  proof (cases "K = TString")
    case True
    with assms(3) obtain s where "k2 = VString s" by (cases k2) auto
    with True eq show ?thesis by (simp add: get_pmnk_string PoormanPrefixing_string_rev)
  next
    case False
    with eq show ?thesis by (simp add: get_pmnk_def PoormanPrefixing_any_junk [of _ j1 _ j2])
  qed
next
  assume lt: "pmnk_value (get_pmnk K P j1 k1) < pmnk_value (get_pmnk K P j2 k2)"
  have "pmnk_value (get_pmnk K P j2 k2) \<le> pmnk_value (get_pmnk K P j1 k1)" if "key_less k2 k1 \<or> k2 = k1"
    using assms that by (intro pmnk_order_le) auto
  with lt have "\<not> key_less k2 k1" "k1 \<noteq> k2" by auto
  with key_less_total [OF assms(1-3)] show "key_less k1 k2" by auto
qed



text \<open>
  The order of prefixes at two 4-byte keys with a 2-byte prefix and at the strings
  \<open>ab\<close> and \<open>b\<close> with a 4-byte prefix.
\<close>

theorem pmnk_order_preserving_witness:
  "supported_key_type (TScalar (Unsigned 4))
   \<and> has_type (VScalar [0xFF, 0xFF, 0x01, 0x00]) (TScalar (Unsigned 4))
   \<and> has_type (VScalar [0x00, 0x00, 0x02, 0x00]) (TScalar (Unsigned 4))
   \<and> PoormanPrefixing_static_assert (TScalar (Unsigned 4)) (Unsigned 2)
   \<and> key_less (VScalar [0xFF, 0xFF, 0x01, 0x00]) (VScalar [0x00, 0x00, 0x02, 0x00])
   \<and> pmnk_value (get_pmnk (TScalar (Unsigned 4)) (Unsigned 2) junk_a (VScalar [0xFF, 0xFF, 0x01, 0x00]))
       \<le> pmnk_value (get_pmnk (TScalar (Unsigned 4)) (Unsigned 2) junk_b (VScalar [0x00, 0x00, 0x02, 0x00]))
   \<and> supported_key_type TString
   \<and> has_type (VString [0x61, 0x62]) TString \<and> has_type (VString [0x62]) TString
   \<and> key_less (VString [0x61, 0x62]) (VString [0x62])
   \<and> pmnk_value (get_pmnk TString (Unsigned 4) junk_a (VString [0x61, 0x62]))
       \<le> pmnk_value (get_pmnk TString (Unsigned 4) junk_b (VString [0x62]))"
proof -
  have s1: "supported_key_type (TScalar (Unsigned 4))" by simp
  have s2: "has_type (VScalar [0xFF, 0xFF, 0x01, 0x00]) (TScalar (Unsigned 4))" by simp
  have s3: "has_type (VScalar [0x00, 0x00, 0x02, 0x00]) (TScalar (Unsigned 4))" by simp
  have s4: "PoormanPrefixing_static_assert (TScalar (Unsigned 4)) (Unsigned 2)"
    by (simp add: PoormanPrefixing_static_assert_def)
  have s5: "key_less (VScalar [0xFF, 0xFF, 0x01, 0x00]) (VScalar [0x00, 0x00, 0x02, 0x00])" by simp
  have t1: "supported_key_type TString" by simp
  have t2: "has_type (VString [0x61, 0x62]) TString" "has_type (VString [0x62]) TString" by simp_all
  have t5: "key_less (VString [0x61, 0x62]) (VString [0x62])" by simp
  from s4 have s4': "TScalar (Unsigned 2) = TScalar (Unsigned 4) \<or> TScalar (Unsigned 4) = TString
      \<or> PoormanPrefixing_static_assert (TScalar (Unsigned 4)) (Unsigned 2)" by simp
  have t4': "TScalar (Unsigned 4) = TString \<or> TString = TString
      \<or> PoormanPrefixing_static_assert TString (Unsigned 4)" by simp
  show ?thesis
    using pmnk_order_preserving [OF s1 s2 s3 s4', of junk_a junk_b]
          pmnk_order_preserving [OF t1 t2 t4', of junk_a junk_b] s1 s2 s3 s4 s5 t1 t2 t5
    by blast
qed

text \<open>
  Claim C5 as stated fails for a signed key type: with 4-byte signed keys and a 2-byte
  prefix, \<open>-2 < 1\<close> but the prefix of \<open>-2\<close> is \<open>0xFFFF\<close> and the prefix of
  \<open>1\<close> is \<open>0\<close>, so the unsigned order of the prefixes contradicts the order of the
  keys.
\<close>

theorem signed_key_order_counterexample:
  "has_type (VScalar [0xFE, 0xFF, 0xFF, 0xFF]) (TScalar (Signed 4))
   \<and> has_type (VScalar [0x01, 0x00, 0x00, 0x00]) (TScalar (Signed 4))
   \<and> TScalar (Unsigned 2) \<noteq> TScalar (Signed 4)
   \<and> PoormanPrefixing_static_assert (TScalar (Signed 4)) (Unsigned 2)
   \<and> sint_value [0xFE, 0xFF, 0xFF, 0xFF] = - 2
   \<and> sint_value [0x01, 0x00, 0x00, 0x00] = 1
   \<and> pmnk_value (get_pmnk (TScalar (Signed 4)) (Unsigned 2) junk_a (VScalar [0xFE, 0xFF, 0xFF, 0xFF])) = 0xFFFF
   \<and> pmnk_value (get_pmnk (TScalar (Signed 4)) (Unsigned 2) junk_a (VScalar [0x01, 0x00, 0x00, 0x00])) = 0
   \<and> sint_value [0xFE, 0xFF, 0xFF, 0xFF] < sint_value [0x01, 0x00, 0x00, 0x00]
   \<and> pmnk_value (get_pmnk (TScalar (Signed 4)) (Unsigned 2) junk_a (VScalar [0x01, 0x00, 0x00, 0x00]))
       < pmnk_value (get_pmnk (TScalar (Signed 4)) (Unsigned 2) junk_a (VScalar [0xFE, 0xFF, 0xFF, 0xFF]))"
proof -
  have ne: "TScalar (Unsigned 2) \<noteq> TScalar (Signed 4)" by simp
  have a: "get_pmnk (TScalar (Signed 4)) (Unsigned 2) junk_a (VScalar [0xFE, 0xFF, 0xFF, 0xFF])
           = VScalar [0xFF, 0xFF]"
    using get_pmnk_scalar [OF ne, of "[0xFE, 0xFF, 0xFF, 0xFF]" junk_a] by simp
  have b: "get_pmnk (TScalar (Signed 4)) (Unsigned 2) junk_a (VScalar [0x01, 0x00, 0x00, 0x00])
           = VScalar [0x00, 0x00]"
    using get_pmnk_scalar [OF ne, of "[0x01, 0x00, 0x00, 0x00]" junk_a] by simp
  show ?thesis
    unfolding a b
    by (simp add: PoormanPrefixing_static_assert_def sint_value_def pmnk_value_VScalar)
qed

text \<open>
  Claim C5, amended: for a scalar key whose type has no padding bytes, is not the prefix
  type and is at least as wide, the extracted prefix is the first
  \<^verbatim>\<open>sizeof(PMNK_Type)\<close> bytes of the big-endian representation of the key, reversed
  back into the native order; as a number it is the unsigned value of the key divided by
  \<open>256 ^ (sizeof(K) - sizeof(PMNK_Type))\<close>. When the key type is unsigned, the unsigned
  comparison of prefixes reflects the order of the keys: a smaller key has a prefix that
  is not greater, and a smaller prefix belongs to a smaller key.
\<close>

theorem scalar_pmnk_leading_bytes_and_order:
  assumes "TScalar P \<noteq> TScalar T"
    and "PoormanPrefixing_static_assert (TScalar T) P"
    and "has_type (VScalar key) (TScalar T)"
    and "has_type (VScalar key') (TScalar T)"
  shows "get_pmnk (TScalar T) P junk (VScalar key)
           = VScalar (swap_endianness (sizeof P) pad_in pad_out
               (take (sizeof P) (big_endian_bytes (sizeof T) (uint_value key))))
         \<and> pmnk_value (get_pmnk (TScalar T) P junk (VScalar key))
           = uint_value key div 256 ^ (sizeof T - sizeof P)
         \<and> (T = Unsigned n \<longrightarrow>
              (key_less (VScalar key) (VScalar key') \<longrightarrow>
                 pmnk_value (get_pmnk (TScalar T) P junk (VScalar key))
                 \<le> pmnk_value (get_pmnk (TScalar T) P junk' (VScalar key')))
            \<and> (pmnk_value (get_pmnk (TScalar T) P junk (VScalar key))
                 < pmnk_value (get_pmnk (TScalar T) P junk' (VScalar key')) \<longrightarrow>
                 key_less (VScalar key) (VScalar key')))"
proof -
  from assms have len: "length key = sizeof T" and le: "sizeof P \<le> length key"
    and len': "length key' = sizeof T" and le': "sizeof P \<le> length key'"
    by (simp_all add: PoormanPrefixing_static_assert_def)
  have "length (take (sizeof P) (big_endian_bytes (sizeof T) (uint_value key))) = sizeof P"
    using le len by (simp add: big_endian_bytes_def)
  then have "swap_endianness (sizeof P) pad_in pad_out
          (take (sizeof P) (big_endian_bytes (sizeof T) (uint_value key)))
        = rev (take (sizeof P) (big_endian_bytes (sizeof T) (uint_value key)))"
    by (rule swap_endianness_rev)
  also have "\<dots> = rev (take (sizeof P) (rev key))"
    using big_endian_bytes_uint_value [of key] by (simp add: len)
  also have "\<dots> = drop (length key - sizeof P) key"
    by (simp add: take_rev)
  finally have bytes: "swap_endianness (sizeof P) pad_in pad_out
          (take (sizeof P) (big_endian_bytes (sizeof T) (uint_value key)))
        = drop (length key - sizeof P) key" .
  have pm: "get_pmnk (TScalar T) P junk (VScalar key) = VScalar (drop (length key - sizeof P) key)"
    using assms(1) le by (rule get_pmnk_scalar)
  have pm': "get_pmnk (TScalar T) P junk' (VScalar key') = VScalar (drop (length key' - sizeof P) key')"
    using assms(1) le' by (rule get_pmnk_scalar)
  have v: "pmnk_value (get_pmnk (TScalar T) P junk (VScalar key))
           = uint_value key div 256 ^ (sizeof T - sizeof P)"
    by (simp add: pm pmnk_value_VScalar uint_value_drop len)
  have v': "pmnk_value (get_pmnk (TScalar T) P junk' (VScalar key'))
           = uint_value key' div 256 ^ (sizeof T - sizeof P)"
    by (simp add: pm' pmnk_value_VScalar uint_value_drop len')
  have up: "pmnk_value (get_pmnk (TScalar T) P junk (VScalar key))
            \<le> pmnk_value (get_pmnk (TScalar T) P junk' (VScalar key'))"
    if "key_less (VScalar key) (VScalar key')"
    using that unfolding v v' by (simp add: div_le_mono)
  have down: "key_less (VScalar key) (VScalar key')"
    if "pmnk_value (get_pmnk (TScalar T) P junk (VScalar key))
        < pmnk_value (get_pmnk (TScalar T) P junk' (VScalar key'))"
  proof (rule ccontr)
    assume "\<not> key_less (VScalar key) (VScalar key')"
    then have "uint_value key' \<le> uint_value key" by simp
    then have "uint_value key' div 256 ^ (sizeof T - sizeof P) \<le> uint_value key div 256 ^ (sizeof T - sizeof P)"
      by (rule div_le_mono)
    with that show False unfolding v v' by simp
  qed
  have one: "get_pmnk (TScalar T) P junk (VScalar key)
           = VScalar (swap_endianness (sizeof P) pad_in pad_out
               (take (sizeof P) (big_endian_bytes (sizeof T) (uint_value key))))"
    unfolding pm bytes ..
  from one v up down show ?thesis by blast
qed

text \<open>
  The 2-byte prefix of the 4-byte unsigned key \<open>0x12345678\<close> is \<open>0x1234\<close>, not
  greater than the prefix of the greater key \<open>0x12350000\<close>.
\<close>

theorem scalar_pmnk_leading_bytes_and_order_witness:
  "TScalar (Unsigned 2) \<noteq> TScalar (Unsigned 4)
   \<and> PoormanPrefixing_static_assert (TScalar (Unsigned 4)) (Unsigned 2)
   \<and> has_type (VScalar [0x78, 0x56, 0x34, 0x12]) (TScalar (Unsigned 4))
   \<and> has_type (VScalar [0x00, 0x00, 0x35, 0x12]) (TScalar (Unsigned 4))
   \<and> Unsigned 4 = Unsigned 4
   \<and> key_less (VScalar [0x78, 0x56, 0x34, 0x12]) (VScalar [0x00, 0x00, 0x35, 0x12])
   \<and> get_pmnk (TScalar (Unsigned 4)) (Unsigned 2) junk_a (VScalar [0x78, 0x56, 0x34, 0x12])
       = VScalar [0x34, 0x12]
   \<and> pmnk_value (get_pmnk (TScalar (Unsigned 4)) (Unsigned 2) junk_a (VScalar [0x78, 0x56, 0x34, 0x12]))
       = 0x1234
   \<and> pmnk_value (get_pmnk (TScalar (Unsigned 4)) (Unsigned 2) junk_a (VScalar [0x78, 0x56, 0x34, 0x12]))
       \<le> pmnk_value (get_pmnk (TScalar (Unsigned 4)) (Unsigned 2) junk_b (VScalar [0x00, 0x00, 0x35, 0x12]))"
proof -
  have h1: "TScalar (Unsigned 2) \<noteq> TScalar (Unsigned 4)" by simp
  have h2: "PoormanPrefixing_static_assert (TScalar (Unsigned 4)) (Unsigned 2)"
    by (simp add: PoormanPrefixing_static_assert_def)
  have h3: "has_type (VScalar [0x78, 0x56, 0x34, 0x12]) (TScalar (Unsigned 4))" by simp
  have h4: "has_type (VScalar [0x00, 0x00, 0x35, 0x12]) (TScalar (Unsigned 4))" by simp
  have h5: "key_less (VScalar [0x78, 0x56, 0x34, 0x12]) (VScalar [0x00, 0x00, 0x35, 0x12])" by simp
  note t = scalar_pmnk_leading_bytes_and_order [OF h1 h2 h3 h4, of junk_a junk_a junk_a 4 junk_b]
  have len: "length [0x78, 0x56, 0x34, 0x12 :: byte] = 4" by simp
  have be: "big_endian_bytes 4 (uint_value [0x78, 0x56, 0x34, 0x12 :: byte]) = rev [0x78, 0x56, 0x34, 0x12]"
    using big_endian_bytes_uint_value [of "[0x78, 0x56, 0x34, 0x12]"] unfolding len .
  have two: "length [0x12, 0x34 :: byte] = 2" by simp
  have sw: "swap_endianness 2 junk_a junk_a [0x12, 0x34] = [0x34, 0x12]"
    using swap_endianness_rev [OF two, of junk_a junk_a] by simp
  have bytes: "get_pmnk (TScalar (Unsigned 4)) (Unsigned 2) junk_a (VScalar [0x78, 0x56, 0x34, 0x12])
       = VScalar [0x34, 0x12]"
    using t [THEN conjunct1] be sw by simp
  have val: "pmnk_value (get_pmnk (TScalar (Unsigned 4)) (Unsigned 2) junk_a (VScalar [0x78, 0x56, 0x34, 0x12]))
       = 0x1234"
    unfolding bytes by (simp add: pmnk_value_VScalar)
  have ord: "pmnk_value (get_pmnk (TScalar (Unsigned 4)) (Unsigned 2) junk_a (VScalar [0x78, 0x56, 0x34, 0x12]))
       \<le> pmnk_value (get_pmnk (TScalar (Unsigned 4)) (Unsigned 2) junk_b (VScalar [0x00, 0x00, 0x35, 0x12]))"
    using t [THEN conjunct2, THEN conjunct2] h5 by blast
  from h1 h2 h3 h4 h5 bytes val ord show ?thesis by blast
qed

section \<open>Reading and writing memory\<close>

lemma length_mem_read [simp]: "length (mem_read m p n) = n"
  by (induction n arbitrary: p) auto

lemma mem_write_outside: "a < p \<or> p + length bs \<le> a \<Longrightarrow> mem_write m p bs a = m a"
  by (induction bs arbitrary: m p) auto

lemma mem_write_append:
  "mem_write m p (xs @ ys) = mem_write (mem_write m p xs) (p + length xs) ys"
  by (induction xs arbitrary: m p) auto

lemma mem_read_add: "mem_read m p (a + b) = mem_read m p a @ mem_read m (p + a) b"
  by (induction a arbitrary: p) auto

lemma mem_read_cong:
  "(\<And>a. p \<le> a \<Longrightarrow> a < p + n \<Longrightarrow> m a = m' a) \<Longrightarrow> mem_read m p n = mem_read m' p n"
  by (induction n arbitrary: p) auto

lemma mem_read_mem_write: "mem_read (mem_write m p bs) p (length bs) = bs"
proof (induction bs arbitrary: m p)
  case Nil
  then show ?case by simp
next
  case (Cons b bs)
  have "mem_write (m(p := b)) (Suc p) bs p = (m(p := b)) p"
    by (rule mem_write_outside) simp
  with Cons show ?case by simp
qed

lemma mem_read_mem_write_prefix:
  "mem_read (mem_write m p (xs @ ys)) p (length xs) = xs"
proof -
  have "mem_read (mem_write m p (xs @ ys)) p (length xs + length ys) = xs @ ys"
    using mem_read_mem_write [of m p "xs @ ys"] by simp
  then show ?thesis by (simp add: mem_read_add)
qed

section \<open>What the encoders write and read\<close>

lemma uint_bytes_2: "uint_bytes 2 n = [of_nat (n mod 256), of_nat (n div 256 mod 256)]"
  by (simp add: numeral_2_eq_2)

lemma string_encode_wire:
  "InlineEncoder_string_encode (VString s) m dest
   = (mem_write m dest (wire_format (VString s)), dest + length (wire_format (VString s)))"
proof -
  have w: "wire_format (VString s) = uint_bytes 2 (length s) @ s"
    by (simp add: uint_bytes_2)
  show ?thesis
    unfolding w
    by (simp add: InlineEncoder_string_encode_def Let_def sizeof_LengthType_def string_bytes_def
        mem_write_append)
qed

lemma Helper_encode_wire:
  assumes fields: "\<And>i m d. i < length Ts \<Longrightarrow>
      InlineEncoder_encode (Ts ! i) (vs ! i) m d
      = (mem_write m d (wire_format (vs ! i)), d + length (wire_format (vs ! i)))"
    and len: "length vs = length Ts"
  shows "TupleEncodingHelper_encode N Ts vs m dest
         = (mem_write m dest (concat (map wire_format (drop N vs))),
            dest + length (concat (map wire_format (drop N vs))))"
proof (induction "length Ts - N" arbitrary: N m dest)
  case 0
  then show ?case
    using len by (subst TupleEncodingHelper_encode.simps) simp
next
  case (Suc k)
  then have N: "N < length Ts" by simp
  from Suc(2) have "k = length Ts - Suc N" by simp
  note IH = Suc(1) [OF this]
  have drop: "drop N vs = vs ! N # drop (Suc N) vs"
    using N len by (simp add: Cons_nth_drop_Suc)
  show ?case
    by (subst TupleEncodingHelper_encode.simps) (simp add: N fields IH drop mem_write_append add.assoc)
qed

lemma InlineEncoder_encode_wire:
  "has_type v T \<Longrightarrow>
   InlineEncoder_encode T v m dest = (mem_write m dest (wire_format v), dest + length (wire_format v))"
proof (induction T arbitrary: v m dest)
  case (TScalar S)
  then obtain bs where "v = VScalar bs" "length bs = sizeof S" by (cases v) auto
  then show ?case by (simp add: AssignmentEncoder_encode_def scalar_bytes_def)
next
  case TString
  then obtain s where "v = VString s" by (cases v) auto
  then show ?case by (simp add: string_encode_wire del: wire_format.simps)
next
  case (TTuple Ts)
  from TTuple.prems obtain vs where v: "v = VTuple vs" and all: "list_all2 has_type vs Ts"
    by (cases v) auto
  from all have len: "length vs = length Ts" and each: "\<And>i. i < length Ts \<Longrightarrow> has_type (vs ! i) (Ts ! i)"
    by (simp_all add: list_all2_conv_all_nth)
  have "TupleEncodingHelper_encode 0 Ts vs m dest
         = (mem_write m dest (concat (map wire_format (drop 0 vs))),
            dest + length (concat (map wire_format (drop 0 vs))))"
    using len by (intro Helper_encode_wire TTuple.IH each) auto
  then show ?case by (simp add: v tuple_fields_def)
qed

lemma Helper_length_wire:
  assumes fields: "\<And>i. i < length Ts \<Longrightarrow>
      InlineEncoder_get_payload_length (Ts ! i) (vs ! i) = length (wire_format (vs ! i))"
    and len: "length vs = length Ts"
  shows "TupleEncodingHelper_get_payload_length N Ts vs = length (concat (map wire_format (drop N vs)))"
proof (induction "length Ts - N" arbitrary: N)
  case 0
  then show ?case
    using len by (subst TupleEncodingHelper_get_payload_length.simps) simp
next
  case (Suc k)
  then have N: "N < length Ts" by simp
  from Suc(2) have "k = length Ts - Suc N" by simp
  note IH = Suc(1) [OF this]
  have drop: "drop N vs = vs ! N # drop (Suc N) vs"
    using N len by (simp add: Cons_nth_drop_Suc)
  show ?case
    by (subst TupleEncodingHelper_get_payload_length.simps) (simp add: N fields IH drop)
qed

lemma InlineEncoder_length_wire:
  "has_type v T \<Longrightarrow> InlineEncoder_get_payload_length T v = length (wire_format v)"
proof (induction T arbitrary: v)
  case (TScalar S)
  then obtain bs where "v = VScalar bs" "length bs = sizeof S" by (cases v) auto
  then show ?case by (simp add: AssignmentEncoder_get_payload_length_def)
next
  case TString
  then obtain s where "v = VString s" by (cases v) auto
  then show ?case
    by (simp add: InlineEncoder_string_get_payload_length_def sizeof_LengthType_def string_bytes_def)
next
  case (TTuple Ts)
  from TTuple.prems obtain vs where v: "v = VTuple vs" and all: "list_all2 has_type vs Ts"
    by (cases v) auto
  from all have len: "length vs = length Ts" and each: "\<And>i. i < length Ts \<Longrightarrow> has_type (vs ! i) (Ts ! i)"
    by (simp_all add: list_all2_conv_all_nth)
  have "TupleEncodingHelper_get_payload_length 0 Ts vs = length (concat (map wire_format (drop 0 vs)))"
    using len by (intro Helper_length_wire TTuple.IH each) auto
  then show ?case by (simp add: v tuple_fields_def)
qed

lemma tuple_length_ptr_zero: "InlineEncoder_get_payload_length_ptr (TTuple Ts) m ptr = 0"
  by (simp add: TupleEncodingHelper_get_payload_length_ptr.simps)

lemma Helper_decode_end:
  assumes fields: "\<And>i m src old. i < length Ts \<Longrightarrow>
      fst (InlineEncoder_decode (Ts ! i) m src (Some old)) = fst (InlineEncoder_decode (Ts ! i) m src None)"
  shows "fst (TupleEncodingHelper_decode N Ts m src (Some obj)) = fst (TupleEncodingHelper_decode N Ts m src None)"
proof (induction "length Ts - N" arbitrary: N src obj)
  case 0
  then show ?case
    by (simp add: TupleEncodingHelper_decode.simps)
next
  case (Suc k)
  then have N: "N < length Ts" by simp
  from Suc(2) have "k = length Ts - Suc N" by simp
  note IH = Suc(1) [OF this]
  show ?case
    by (simp add: TupleEncodingHelper_decode.simps [of N] N fields IH case_prod_beta Let_def)
qed

lemma InlineEncoder_decode_end:
  "fst (InlineEncoder_decode T m src (Some old)) = fst (InlineEncoder_decode T m src None)"
proof (induction T arbitrary: m src old)
  case (TScalar S)
  show ?case by (simp add: AssignmentEncoder_decode_def)
next
  case TString
  show ?case by (simp add: InlineEncoder_string_decode_def Let_def)
next
  case (TTuple Ts)
  have "fst (TupleEncodingHelper_decode 0 Ts m src (Some (tuple_fields old)))
        = fst (TupleEncodingHelper_decode 0 Ts m src None)"
    by (rule Helper_decode_end) (simp add: TTuple.IH)
  then show ?case by (simp add: case_prod_beta)
qed

lemma Helper_decode_shape:
  assumes fields: "\<And>i m src old. i < length Ts \<Longrightarrow>
      \<exists>e v. InlineEncoder_decode (Ts ! i) m src (Some old) = (e, Some v, [])"
  shows "\<exists>e r. TupleEncodingHelper_decode N Ts m src (Some obj) = (e, Some r, [])"
proof (induction "length Ts - N" arbitrary: N src obj)
  case 0
  then show ?case
    by (simp add: TupleEncodingHelper_decode.simps)
next
  case (Suc k)
  then have N: "N < length Ts" by simp
  from Suc(2) have "k = length Ts - Suc N" by simp
  note IH = Suc(1) [OF this]
  from fields [OF N] obtain e v where
    f: "InlineEncoder_decode (Ts ! N) m src (Some (obj ! N)) = (e, Some v, [])" by blast
  from IH obtain e' r where
    h: "TupleEncodingHelper_decode (Suc N) Ts m e (Some (obj[N := v])) = (e', Some r, [])" by blast
  show ?case
    by (simp add: TupleEncodingHelper_decode.simps [of N] N f h)
qed

lemma InlineEncoder_decode_shape:
  "\<exists>e v. InlineEncoder_decode T m src (Some old) = (e, Some v, [])"
proof (induction T arbitrary: m src old)
  case (TScalar S)
  show ?case by (simp add: AssignmentEncoder_decode_def)
next
  case TString
  show ?case by (simp add: InlineEncoder_string_decode_def Let_def)
next
  case (TTuple Ts)
  have "\<exists>e r. TupleEncodingHelper_decode 0 Ts m src (Some (tuple_fields old)) = (e, Some r, [])"
    by (rule Helper_decode_shape) (simp add: TTuple.IH)
  then show ?case by auto
qed

lemma Helper_decode_null:
  assumes "N < length Ts"
    and "TupleEncodingHelper_decode N Ts m src (Some (map default_val Ts)) = (e, Some r, [])"
  shows "TupleEncodingHelper_decode N Ts m src None = (e, None, [VTuple r])"
proof -
  obtain e1 v where
    f: "InlineEncoder_decode (Ts ! N) m src (Some (default_val (Ts ! N))) = (e1, Some v, [])"
    using InlineEncoder_decode_shape by blast
  obtain e2 r2 where
    h: "TupleEncodingHelper_decode (Suc N) Ts m e1 (Some ((map default_val Ts)[N := v])) = (e2, Some r2, [])"
    using Helper_decode_shape [of Ts] InlineEncoder_decode_shape by blast
  from assms(2) have "e2 = e" "r2 = r"
    by (simp_all add: TupleEncodingHelper_decode.simps [of N _ _ _ "Some _"] assms(1) f h)
  then show ?thesis
    by (simp add: TupleEncodingHelper_decode.simps [of N _ _ _ None] assms(1) f h)
qed

lemma string_decode_wire:
  assumes fit: "length s < 2 ^ 16"
    and mem: "mem_read m src (length (wire_format (VString s))) = wire_format (VString s)"
  shows "InlineEncoder_string_decode m src (Some old)
         = (src + length (wire_format (VString s)), Some (VString s))"
proof -
  have w: "wire_format (VString s) = uint_bytes 2 (length s) @ s"
    by (simp add: uint_bytes_2)
  from mem have "mem_read m src (2 + length s) = uint_bytes 2 (length s) @ s"
    unfolding w by simp
  then have "mem_read m src 2 @ mem_read m (src + 2) (length s) = uint_bytes 2 (length s) @ s"
    by (simp only: mem_read_add)
  then have header: "mem_read m src 2 = uint_bytes 2 (length s)"
    and bytes: "mem_read m (src + 2) (length s) = s"
    by simp_all
  from bytes have bytes': "mem_read m (Suc (Suc src)) (length s) = s"
    by simp
  have len: "uint_value (uint_bytes 2 (length s)) = length s"
    using fit by (simp add: uint_value_uint_bytes)
  show ?thesis
    unfolding w
    by (simp add: InlineEncoder_string_decode_def Let_def sizeof_LengthType_def header len bytes')
qed

lemma Helper_decode_wire:
  assumes fields: "\<And>i m src old. i < length Ts \<Longrightarrow> has_type old (Ts ! i) \<Longrightarrow>
      mem_read m src (length (wire_format (vs ! i))) = wire_format (vs ! i) \<Longrightarrow>
      InlineEncoder_decode (Ts ! i) m src (Some old)
      = (src + length (wire_format (vs ! i)), Some (vs ! i), [])"
    and len: "length vs = length Ts"
    and typed: "\<And>i. i < length Ts \<Longrightarrow> has_type (vs ! i) (Ts ! i)"
  shows "length obj = length Ts \<Longrightarrow> (\<And>i. i < length Ts \<Longrightarrow> has_type (obj ! i) (Ts ! i)) \<Longrightarrow>
         mem_read m src (length (concat (map wire_format (drop N vs)))) = concat (map wire_format (drop N vs)) \<Longrightarrow>
         TupleEncodingHelper_decode N Ts m src (Some obj)
         = (src + length (concat (map wire_format (drop N vs))), Some (take N obj @ drop N vs), [])"
proof (induction "length Ts - N" arbitrary: N src obj)
  case 0
  then have "length Ts \<le> N" by simp
  with 0 len show ?case
    by (simp add: TupleEncodingHelper_decode.simps)
next
  case (Suc k)
  then have N: "N < length Ts" by simp
  from Suc(2) have k: "k = length Ts - Suc N" by simp
  have drop: "drop N vs = vs ! N # drop (Suc N) vs"
    using N len by (simp add: Cons_nth_drop_Suc)
  let ?w = "wire_format (vs ! N)"
  let ?rest = "concat (map wire_format (drop (Suc N) vs))"
  from Suc.prems(3) have "mem_read m src (length ?w + length ?rest) = ?w @ ?rest"
    unfolding drop by simp
  then have "mem_read m src (length ?w) @ mem_read m (src + length ?w) (length ?rest) = ?w @ ?rest"
    by (simp only: mem_read_add)
  then have here: "mem_read m src (length ?w) = ?w"
    and there: "mem_read m (src + length ?w) (length ?rest) = ?rest"
    by simp_all
  have field: "InlineEncoder_decode (Ts ! N) m src (Some (obj ! N)) = (src + length ?w, Some (vs ! N), [])"
    using N Suc.prems(2) [OF N] here by (rule fields)
  let ?obj = "obj[N := vs ! N]"
  have obj_len: "length ?obj = length Ts" using Suc.prems(1) by simp
  have obj_typed: "has_type (?obj ! i) (Ts ! i)" if "i < length Ts" for i
    using that Suc.prems(1,2) typed by (cases "i = N") auto
  have rest: "TupleEncodingHelper_decode (Suc N) Ts m (src + length ?w) (Some ?obj)
        = (src + length ?w + length ?rest, Some (take (Suc N) ?obj @ drop (Suc N) vs), [])"
    using k obj_len obj_typed there by (rule Suc.hyps(1))
  have "take (Suc N) ?obj @ drop (Suc N) vs = take N obj @ drop N vs"
    using N Suc.prems(1) by (simp add: drop take_Suc_conv_app_nth)
  with rest show ?case
    by (simp add: TupleEncodingHelper_decode.simps [of N] N field drop add.assoc)
qed

lemma InlineEncoder_decode_wire:
  "has_type v T \<Longrightarrow> lengths_fit v \<Longrightarrow> has_type old T \<Longrightarrow>
   mem_read m src (length (wire_format v)) = wire_format v \<Longrightarrow>
   InlineEncoder_decode T m src (Some old) = (src + length (wire_format v), Some v, [])"
proof (induction T arbitrary: v old m src)
  case (TScalar S)
  then obtain bs where "v = VScalar bs" "length bs = sizeof S" by (cases v) auto
  with TScalar show ?case by (simp add: AssignmentEncoder_decode_def)
next
  case TString
  then obtain s where v: "v = VString s" by (cases v) auto
  with TString have "InlineEncoder_string_decode m src (Some old)
         = (src + length (wire_format (VString s)), Some (VString s))"
    by (intro string_decode_wire) simp_all
  then show ?case by (simp add: v del: wire_format.simps)
next
  case (TTuple Ts)
  from TTuple.prems obtain vs where v: "v = VTuple vs" and all: "list_all2 has_type vs Ts"
    by (cases v) auto
  from TTuple.prems obtain os where old: "old = VTuple os" and olds: "list_all2 has_type os Ts"
    by (cases old) auto
  from all have len: "length vs = length Ts" and each: "\<And>i. i < length Ts \<Longrightarrow> has_type (vs ! i) (Ts ! i)"
    by (simp_all add: list_all2_conv_all_nth)
  from olds have olen: "length os = length Ts" and oeach: "\<And>i. i < length Ts \<Longrightarrow> has_type (os ! i) (Ts ! i)"
    by (simp_all add: list_all2_conv_all_nth)
  from TTuple.prems(2) v len have fit: "\<And>i. i < length Ts \<Longrightarrow> lengths_fit (vs ! i)"
    by (simp add: list_all_length)
  from TTuple.prems(4) have mem: "mem_read m src (length (concat (map wire_format (drop 0 vs))))
        = concat (map wire_format (drop 0 vs))"
    by (simp add: v)
  have "TupleEncodingHelper_decode 0 Ts m src (Some os)
         = (src + length (concat (map wire_format (drop 0 vs))), Some (take 0 os @ drop 0 vs), [])"
  proof (rule Helper_decode_wire [OF _ len each olen oeach mem])
    fix i m' src' old'
    assume "i < length Ts" "has_type old' (Ts ! i)"
      "mem_read m' src' (length (wire_format (vs ! i))) = wire_format (vs ! i)"
    then show "InlineEncoder_decode (Ts ! i) m' src' (Some old')
        = (src' + length (wire_format (vs ! i)), Some (vs ! i), [])"
      using each fit by (intro TTuple.IH) auto
  qed
  then show ?case by (simp add: v old tuple_fields_def)
qed

section \<open>Byte strings\<close>

text \<open>
  Claim C3: a byte string shorter than \<open>2 ^ 16\<close> bytes round-trips through the wire
  format. \<open>encode\<close> writes the length as two bytes, low byte first, then the bytes of
  the string, and returns \<open>dest + 2 + length\<close>; \<open>decode\<close> with a non-null output
  recovers the string and returns the same pointer; the encoded length of the string is
  \<open>2 + length\<close>.
\<close>

theorem string_encoding_roundtrip:
  assumes "length s < 2 ^ 16"
  shows "snd (InlineEncoder_string_encode (VString s) m dest) = dest + 2 + length s
       \<and> fst (InlineEncoder_string_encode (VString s) m dest)
           = mem_write m dest ([of_nat (length s mod 256), of_nat (length s div 256)] @ s)
       \<and> uint_value (mem_read (fst (InlineEncoder_string_encode (VString s) m dest)) dest 2) = length s
       \<and> mem_read (fst (InlineEncoder_string_encode (VString s) m dest)) (dest + 2) (length s) = s
       \<and> InlineEncoder_string_decode (fst (InlineEncoder_string_encode (VString s) m dest)) dest (Some old)
           = (dest + 2 + length s, Some (VString s))
       \<and> InlineEncoder_string_get_payload_length (VString s) = 2 + length s"
proof -
  let ?w = "wire_format (VString s)"
  let ?m = "mem_write m dest ?w"
  have small: "length s div 256 mod 256 = length s div 256"
    using assms by (simp add: less_mult_imp_div_less)
  have w: "?w = [of_nat (length s mod 256), of_nat (length s div 256)] @ s"
    by (simp add: small)
  have w2: "?w = uint_bytes 2 (length s) @ s"
    by (simp add: uint_bytes_2)
  have enc: "InlineEncoder_string_encode (VString s) m dest = (?m, dest + length ?w)"
    by (rule string_encode_wire)
  have all: "mem_read ?m dest (length ?w) = ?w"
    by (rule mem_read_mem_write)
  then have "mem_read ?m dest (2 + length s) = uint_bytes 2 (length s) @ s"
    unfolding w2 by simp
  then have "mem_read ?m dest 2 @ mem_read ?m (dest + 2) (length s) = uint_bytes 2 (length s) @ s"
    by (simp only: mem_read_add)
  then have header: "mem_read ?m dest 2 = uint_bytes 2 (length s)"
    and bytes: "mem_read ?m (dest + 2) (length s) = s"
    by simp_all
  have len: "uint_value (uint_bytes 2 (length s)) = length s"
    using assms by (simp add: uint_value_uint_bytes)
  have dec: "InlineEncoder_string_decode ?m dest (Some old) = (dest + length ?w, Some (VString s))"
    using assms all by (rule string_decode_wire)
  have lw: "length ?w = 2 + length s" by simp
  have "snd (InlineEncoder_string_encode (VString s) m dest) = dest + 2 + length s"
    by (simp add: enc)
  moreover have "fst (InlineEncoder_string_encode (VString s) m dest)
      = mem_write m dest ([of_nat (length s mod 256), of_nat (length s div 256)] @ s)"
    unfolding enc fst_conv w ..
  moreover have "uint_value (mem_read (fst (InlineEncoder_string_encode (VString s) m dest)) dest 2) = length s"
    unfolding enc fst_conv header by (rule len)
  moreover have "mem_read (fst (InlineEncoder_string_encode (VString s) m dest)) (dest + 2) (length s) = s"
    unfolding enc fst_conv by (rule bytes)
  moreover have "InlineEncoder_string_decode (fst (InlineEncoder_string_encode (VString s) m dest)) dest (Some old)
      = (dest + 2 + length s, Some (VString s))"
    unfolding enc fst_conv dec lw by simp
  moreover have "InlineEncoder_string_get_payload_length (VString s) = 2 + length s"
    by (simp add: InlineEncoder_string_get_payload_length_def sizeof_LengthType_def string_bytes_def)
  ultimately show ?thesis by blast
qed

text \<open>The string \<open>abc\<close> written at address 10 of a memory of zeros.\<close>

theorem string_encoding_roundtrip_witness:
  "length [0x61, 0x62, 0x63 :: byte] < 2 ^ 16
   \<and> snd (InlineEncoder_string_encode (VString [0x61, 0x62, 0x63]) blank_memory 10) = 15
   \<and> mem_read (fst (InlineEncoder_string_encode (VString [0x61, 0x62, 0x63]) blank_memory 10)) 10 5
       = [3, 0, 0x61, 0x62, 0x63]
   \<and> InlineEncoder_string_decode (fst (InlineEncoder_string_encode (VString [0x61, 0x62, 0x63]) blank_memory 10))
         10 (Some (VString []))
       = (15, Some (VString [0x61, 0x62, 0x63]))"
proof -
  have h: "length [0x61, 0x62, 0x63 :: byte] < 2 ^ 16" by simp
  have r: "mem_read (mem_write blank_memory 10 [3, 0, 0x61, 0x62, 0x63]) 10 5 = [3, 0, 0x61, 0x62, 0x63]"
    by code_simp
  note t = string_encoding_roundtrip [OF h, of blank_memory 10 "VString []"]
  have e: "snd (InlineEncoder_string_encode (VString [0x61, 0x62, 0x63]) blank_memory 10) = 15"
    using t [THEN conjunct1] by simp
  have f: "fst (InlineEncoder_string_encode (VString [0x61, 0x62, 0x63]) blank_memory 10)
           = mem_write blank_memory 10 [3, 0, 0x61, 0x62, 0x63]"
    using t [THEN conjunct2, THEN conjunct1] by (simp del: mem_write.simps)
  have d: "InlineEncoder_string_decode (fst (InlineEncoder_string_encode (VString [0x61, 0x62, 0x63]) blank_memory 10))
         10 (Some (VString []))
       = (15, Some (VString [0x61, 0x62, 0x63]))"
    using t [THEN conjunct2, THEN conjunct2, THEN conjunct2, THEN conjunct2, THEN conjunct1] by simp
  from r have r': "mem_read (fst (InlineEncoder_string_encode (VString [0x61, 0x62, 0x63]) blank_memory 10)) 10 5
       = [3, 0, 0x61, 0x62, 0x63]"
    by (simp only: f)
  from h e r' d show ?thesis by blast
qed

section \<open>The compound encoder\<close>

lemma ActualKeyEncoder_same:
  "Type KeyEncoder = TScalar PMNK_Type \<Longrightarrow>
   ActualKeyEncoder KeyEncoder PMNK_Type = DummyEncoder (Type KeyEncoder)"
  by (simp add: ActualKeyEncoder_def)

text \<open>
  Claim C6: when the key type is the prefix type, the prefix of a key is the key itself
  and the payload holds no key: the key encoder in use is the dummy encoder, the payload
  length of a pair is the encoded length of the value alone, and \<open>encode\<close> leaves memory
  as the value encoder alone does when it writes the value at \<open>dest\<close>.
\<close>

theorem same_type_stores_no_key:
  assumes "Type KeyEncoder = TScalar PMNK_Type"
  shows "CompoundEncoder_get_pmnk KeyEncoder PMNK_Type junk key = key
       \<and> ActualKeyEncoder KeyEncoder PMNK_Type = DummyEncoder (Type KeyEncoder)
       \<and> CompoundEncoder_get_payload_length KeyEncoder ValueEncoder PMNK_Type key value
           = encoder_get_payload_length ValueEncoder value
       \<and> CompoundEncoder_encode KeyEncoder ValueEncoder PMNK_Type key value m dest
           = fst (encoder_encode ValueEncoder value m dest)"
proof -
  have "CompoundEncoder_get_pmnk KeyEncoder PMNK_Type junk key = key"
    using assms by (simp add: CompoundEncoder_get_pmnk_def get_pmnk_same)
  moreover have "CompoundEncoder_get_payload_length KeyEncoder ValueEncoder PMNK_Type key value
      = encoder_get_payload_length ValueEncoder value"
    using assms
    by (simp add: CompoundEncoder_get_payload_length_def ActualKeyEncoder_def
        DummyEncoder_get_payload_length_def)
  moreover have "CompoundEncoder_encode KeyEncoder ValueEncoder PMNK_Type key value m dest
      = fst (encoder_encode ValueEncoder value m dest)"
    using assms
    by (simp add: CompoundEncoder_encode_def ActualKeyEncoder_def DummyEncoder_encode_def
        case_prod_beta)
  ultimately show ?thesis
    using assms by (simp add: ActualKeyEncoder_def)
qed

text \<open>A 4-byte key with a 4-byte prefix of the same type and a string value.\<close>

theorem same_type_stores_no_key_witness:
  "Type (AssignmentEncoder (Unsigned 4)) = TScalar (Unsigned 4)
   \<and> CompoundEncoder_get_pmnk (AssignmentEncoder (Unsigned 4)) (Unsigned 4) junk_a (VScalar [1, 2, 3, 4])
       = VScalar [1, 2, 3, 4]
   \<and> CompoundEncoder_get_payload_length (AssignmentEncoder (Unsigned 4)) (InlineEncoder TString) (Unsigned 4)
         (VScalar [1, 2, 3, 4]) (VString [0x61, 0x62, 0x63]) = 5"
proof -
  have h: "Type (AssignmentEncoder (Unsigned 4)) = TScalar (Unsigned 4)" by simp
  note t = same_type_stores_no_key [OF h, of junk_a "VScalar [1, 2, 3, 4]" "InlineEncoder TString"
      "VString [0x61, 0x62, 0x63]" blank_memory 0]
  have v: "encoder_get_payload_length (InlineEncoder TString) (VString [0x61, 0x62, 0x63]) = 5"
    by (simp add: InlineEncoder_string_get_payload_length_def sizeof_LengthType_def string_bytes_def)
  from h t v show ?thesis by simp
qed

text \<open>
  Claim C9: when the key type is the prefix type and a key output is requested,
  \<open>CompoundEncoder::decode\<close> needs a non-null \<open>pmnk\<close>. With a null \<open>pmnk\<close>, which
  is also what the default argument gives, the call ends in the failed assertion (or, in a
  build that does not check the assertion, in the dereference of the null pointer); with
  a non-null \<open>pmnk\<close> the key output is the object that \<open>pmnk\<close> points to, whatever the
  payload bytes are. Without a key output a null \<open>pmnk\<close> is accepted.
\<close>

theorem decode_same_type_requires_pmnk:
  assumes "Type KeyEncoder = TScalar PMNK_Type"
  shows "CompoundEncoder_decode KeyEncoder ValueEncoder PMNK_Type assert_active m src (Some old) value None
           = Inl (if assert_active then AssertionFailure else NullPointerDereference)
       \<and> CompoundEncoder_decode_default_args KeyEncoder ValueEncoder PMNK_Type assert_active m src (Some old)
           = Inl (if assert_active then AssertionFailure else NullPointerDereference)
       \<and> CompoundEncoder_decode KeyEncoder ValueEncoder PMNK_Type assert_active m src (Some old) value (Some p)
           = Inr (Some p, fst (snd (encoder_decode ValueEncoder m src value)),
                  snd (snd (encoder_decode ValueEncoder m src value)))
       \<and> CompoundEncoder_decode KeyEncoder ValueEncoder PMNK_Type assert_active m src None value None
           = Inr (None, fst (snd (encoder_decode ValueEncoder m src value)),
                  snd (snd (encoder_decode ValueEncoder m src value)))"
  using assms
  by (simp add: CompoundEncoder_decode_def CompoundEncoder_decode_default_args_def
      ActualKeyEncoder_def DummyEncoder_decode_def case_prod_beta)

text \<open>
  A 4-byte key of the prefix type over a memory of zeros: the key comes from \<open>pmnk\<close>,
  and without \<open>pmnk\<close> the assertion fails.
\<close>

theorem decode_same_type_requires_pmnk_witness:
  "Type (AssignmentEncoder (Unsigned 4)) = TScalar (Unsigned 4)
   \<and> CompoundEncoder_decode (AssignmentEncoder (Unsigned 4)) (AssignmentEncoder (Unsigned 2)) (Unsigned 4)
         True blank_memory 0 (Some (VScalar [0, 0, 0, 0])) None None
       = Inl AssertionFailure
   \<and> CompoundEncoder_decode (AssignmentEncoder (Unsigned 4)) (AssignmentEncoder (Unsigned 2)) (Unsigned 4)
         True blank_memory 0 (Some (VScalar [0, 0, 0, 0])) None (Some (VScalar [1, 2, 3, 4]))
       = Inr (Some (VScalar [1, 2, 3, 4]), None, [])"
proof -
  have h: "Type (AssignmentEncoder (Unsigned 4)) = TScalar (Unsigned 4)" by simp
  note t = decode_same_type_requires_pmnk [OF h, of "AssignmentEncoder (Unsigned 2)" True blank_memory 0
      "VScalar [0, 0, 0, 0]" None "VScalar [1, 2, 3, 4]"]
  have v: "encoder_decode (AssignmentEncoder (Unsigned 2)) blank_memory 0 None = (2, None, [])"
    by (simp add: AssignmentEncoder_decode_def)
  from h t v show ?thesis by simp
qed

section \<open>Tuples\<close>

text \<open>
  Claim C2 does not hold of the tuple encoder. For the tuple that holds the single
  4-byte field 7, the encoded length computed from the value is 4 and \<open>encode\<close>
  advances the pointer by 4, but the length computed from the pointer to the encoded bytes
  is 0: the call in the tuple specialisation selects the helper's overload for the empty
  pack.
\<close>

theorem tuple_length_from_pointer_is_zero:
  "InlineEncoder_get_payload_length (TTuple [TScalar (Unsigned 4)]) (VTuple [VScalar [7, 0, 0, 0]]) = 4
   \<and> snd (InlineEncoder_encode (TTuple [TScalar (Unsigned 4)]) (VTuple [VScalar [7, 0, 0, 0]]) blank_memory 0) = 4
   \<and> InlineEncoder_get_payload_length_ptr (TTuple [TScalar (Unsigned 4)])
         (fst (InlineEncoder_encode (TTuple [TScalar (Unsigned 4)]) (VTuple [VScalar [7, 0, 0, 0]]) blank_memory 0)) 0
       = 0"
proof -
  have ty: "has_type (VTuple [VScalar [7, 0, 0, 0]]) (TTuple [TScalar (Unsigned 4)])" by simp
  show ?thesis
    unfolding InlineEncoder_length_wire [OF ty] InlineEncoder_encode_wire [OF ty] tuple_length_ptr_zero
    by simp
qed

lemma has_type_default_val: "has_type (default_val T) T"
  by (induction T) (simp_all add: list_all2_conv_all_nth)

lemma field_lengths_wire:
  assumes "list_all2 has_type vs Ts"
  shows "map2 InlineEncoder_get_payload_length Ts vs = map (\<lambda>v. length (wire_format v)) vs"
proof (rule nth_equalityI)
  from assms have len: "length vs = length Ts" by (rule list_all2_lengthD)
  then show "length (map2 InlineEncoder_get_payload_length Ts vs) = length (map (\<lambda>v. length (wire_format v)) vs)"
    by simp
  fix i
  assume "i < length (map2 InlineEncoder_get_payload_length Ts vs)"
  then have i: "i < length Ts" "i < length vs" using len by simp_all
  with assms have "has_type (vs ! i) (Ts ! i)" by (simp add: list_all2_conv_all_nth)
  then have "InlineEncoder_get_payload_length (Ts ! i) (vs ! i) = length (wire_format (vs ! i))"
    by (rule InlineEncoder_length_wire)
  with i show "map2 InlineEncoder_get_payload_length Ts vs ! i = map (\<lambda>v. length (wire_format v)) vs ! i"
    by simp
qed

lemma decode_after_encode:
  assumes "has_type v T" "lengths_fit v" "has_type old T"
  shows "InlineEncoder_decode T (fst (InlineEncoder_encode T v m dest)) dest (Some old)
         = (snd (InlineEncoder_encode T v m dest), Some v, [])"
proof -
  have enc: "InlineEncoder_encode T v m dest = (mem_write m dest (wire_format v), dest + length (wire_format v))"
    using assms(1) by (rule InlineEncoder_encode_wire)
  have "mem_read (mem_write m dest (wire_format v)) dest (length (wire_format v)) = wire_format v"
    by (rule mem_read_mem_write)
  with assms have "InlineEncoder_decode T (mem_write m dest (wire_format v)) dest (Some old)
         = (dest + length (wire_format v), Some v, [])"
    by (rule InlineEncoder_decode_wire)
  then show ?thesis by (simp add: enc)
qed

text \<open>
  Claim C7 as stated fails: a tuple whose only field is a string of \<open>2 ^ 16\<close> zero
  bytes is encoded with the length bytes \<open>0, 0\<close>, and decoding the buffer gives the
  tuple of the empty string.
\<close>

theorem tuple_roundtrip_counterexample:
  "fst (snd (InlineEncoder_decode (TTuple [TString])
       (fst (InlineEncoder_encode (TTuple [TString]) (VTuple [VString (replicate 65536 0)]) blank_memory 0))
       0 (Some (VTuple [VString []]))))
   = Some (VTuple [VString []])
   \<and> Some (VTuple [VString []]) \<noteq> Some (VTuple [VString (replicate 65536 0)])"
proof -
  let ?t = "VTuple [VString (replicate 65536 0)]"
  let ?w = "[0, 0] @ replicate 65536 (0 :: byte)"
  have ty: "has_type ?t (TTuple [TString])" by simp
  have w: "wire_format ?t = ?w" by simp
  have enc: "fst (InlineEncoder_encode (TTuple [TString]) ?t blank_memory 0) = mem_write blank_memory 0 ?w"
    unfolding InlineEncoder_encode_wire [OF ty] w by simp
  have "mem_read (mem_write blank_memory 0 ?w) 0 (length [0, 0 :: byte]) = [0, 0]"
    by (rule mem_read_mem_write_prefix)
  then have header: "mem_read (mem_write blank_memory 0 ?w) 0 2 = [0, 0]"
    by (simp add: numeral_2_eq_2 del: mem_write.simps mem_read.simps)
  have field: "InlineEncoder_string_decode (mem_write blank_memory 0 ?w) 0 (Some (VString []))
               = (2, Some (VString []))"
    by (simp add: InlineEncoder_string_decode_def sizeof_LengthType_def header
        del: mem_write.simps append.simps)
  have stop: "TupleEncodingHelper_decode (Suc 0) [TString] (mem_write blank_memory 0 ?w) 2 (Some [VString []])
               = (2, Some [VString []], [])"
    by (simp add: TupleEncodingHelper_decode.simps [of "Suc 0"])
  have helper: "TupleEncodingHelper_decode 0 [TString] (mem_write blank_memory 0 ?w) 0 (Some [VString []])
               = (2, Some [VString []], [])"
    by (simp add: TupleEncodingHelper_decode.simps [of 0] field stop del: mem_write.simps append.simps)
  have "InlineEncoder_decode (TTuple [TString]) (mem_write blank_memory 0 ?w) 0 (Some (VTuple [VString []]))
        = (2, Some (VTuple [VString []]), [])"
    by (simp add: helper tuple_fields_def del: mem_write.simps append.simps)
  moreover have "length ([] :: byte list) \<noteq> length (replicate 65536 (0 :: byte))" by simp
  then have "([] :: byte list) \<noteq> replicate 65536 0" by metis
  ultimately show ?thesis
    unfolding enc by simp
qed

text \<open>
  Claim C7, amended: the encoding of a tuple is the concatenation, in order, of the
  encodings of its fields, each being what the field's own encoder writes; \<open>encode\<close>
  returns \<open>dest\<close> advanced by the encoded length, which is the sum of the encoded
  lengths of the fields (0 for the empty tuple); and when every byte string in the tuple
  is shorter than \<open>2 ^ 16\<close> bytes, \<open>decode\<close> with a non-null output recovers the
  tuple from that buffer and returns the same pointer.
\<close>

theorem tuple_encoding_is_concatenation:
  assumes "has_type t (TTuple Ts)" and "has_type old (TTuple Ts)"
  shows "InlineEncoder_encode (TTuple Ts) t m dest
           = (mem_write m dest (concat (map wire_format (tuple_fields t))),
              dest + InlineEncoder_get_payload_length (TTuple Ts) t)
       \<and> (\<forall>i<length Ts. InlineEncoder_encode (Ts ! i) (tuple_fields t ! i) m dest
             = (mem_write m dest (wire_format (tuple_fields t ! i)),
                dest + InlineEncoder_get_payload_length (Ts ! i) (tuple_fields t ! i)))
       \<and> InlineEncoder_get_payload_length (TTuple Ts) t
           = sum_list (map2 InlineEncoder_get_payload_length Ts (tuple_fields t))
       \<and> InlineEncoder_get_payload_length (TTuple []) (VTuple []) = 0
       \<and> (lengths_fit t \<longrightarrow>
            InlineEncoder_decode (TTuple Ts) (fst (InlineEncoder_encode (TTuple Ts) t m dest)) dest (Some old)
            = (snd (InlineEncoder_encode (TTuple Ts) t m dest), Some t, []))"
proof -
  from assms(1) obtain vs where t: "t = VTuple vs" and all: "list_all2 has_type vs Ts"
    by (cases t) auto
  have fields: "tuple_fields t = vs" by (simp add: t tuple_fields_def)
  have w: "wire_format t = concat (map wire_format vs)" by (simp add: t)
  have len: "InlineEncoder_get_payload_length (TTuple Ts) t = length (wire_format t)"
    using assms(1) by (rule InlineEncoder_length_wire)
  have "InlineEncoder_encode (TTuple Ts) t m dest
        = (mem_write m dest (wire_format t), dest + length (wire_format t))"
    using assms(1) by (rule InlineEncoder_encode_wire)
  then have whole: "InlineEncoder_encode (TTuple Ts) t m dest
           = (mem_write m dest (concat (map wire_format (tuple_fields t))),
              dest + InlineEncoder_get_payload_length (TTuple Ts) t)"
    by (simp only: len fields w)
  have each: "InlineEncoder_encode (Ts ! i) (tuple_fields t ! i) m dest
             = (mem_write m dest (wire_format (tuple_fields t ! i)),
                dest + InlineEncoder_get_payload_length (Ts ! i) (tuple_fields t ! i))" if "i < length Ts" for i
  proof -
    from all that have ty: "has_type (vs ! i) (Ts ! i)" by (simp add: list_all2_conv_all_nth)
    show ?thesis
      unfolding fields InlineEncoder_length_wire [OF ty] using ty by (rule InlineEncoder_encode_wire)
  qed
  have "length (wire_format t) = sum_list (map (\<lambda>v. length (wire_format v)) vs)"
    by (simp add: w length_concat comp_def)
  then have total: "InlineEncoder_get_payload_length (TTuple Ts) t
           = sum_list (map2 InlineEncoder_get_payload_length Ts (tuple_fields t))"
    by (simp only: len fields field_lengths_wire [OF all])
  have nil: "InlineEncoder_get_payload_length (TTuple []) (VTuple []) = 0"
    by (simp add: TupleEncodingHelper_get_payload_length.simps)
  have again: "InlineEncoder_decode (TTuple Ts) (fst (InlineEncoder_encode (TTuple Ts) t m dest)) dest (Some old)
            = (snd (InlineEncoder_encode (TTuple Ts) t m dest), Some t, [])" if "lengths_fit t"
    using assms(1) that assms(2) by (rule decode_after_encode)
  from whole each total nil again show ?thesis by blast
qed

text \<open>The tuple of the 2-byte scalar \<open>0x0201\<close> and the string \<open>a\<close>, encoded at address 0.\<close>

theorem tuple_encoding_is_concatenation_witness:
  "has_type (VTuple [VScalar [1, 2], VString [0x61]]) (TTuple [TScalar (Unsigned 2), TString])
   \<and> has_type (VTuple [VScalar [0, 0], VString []]) (TTuple [TScalar (Unsigned 2), TString])
   \<and> lengths_fit (VTuple [VScalar [1, 2], VString [0x61]])
   \<and> InlineEncoder_get_payload_length (TTuple [TScalar (Unsigned 2), TString])
         (VTuple [VScalar [1, 2], VString [0x61]]) = 5
   \<and> InlineEncoder_encode (TTuple [TScalar (Unsigned 2), TString])
         (VTuple [VScalar [1, 2], VString [0x61]]) blank_memory 0
       = (mem_write blank_memory 0 [1, 2, 1, 0, 0x61], 5)
   \<and> InlineEncoder_decode (TTuple [TScalar (Unsigned 2), TString])
         (fst (InlineEncoder_encode (TTuple [TScalar (Unsigned 2), TString])
                (VTuple [VScalar [1, 2], VString [0x61]]) blank_memory 0))
         0 (Some (VTuple [VScalar [0, 0], VString []]))
       = (5, Some (VTuple [VScalar [1, 2], VString [0x61]]), [])"
proof -
  let ?T = "TTuple [TScalar (Unsigned 2), TString]"
  let ?t = "VTuple [VScalar [1, 2], VString [0x61]]"
  let ?old = "VTuple [VScalar [0, 0], VString []]"
  have h1: "has_type ?t ?T" by simp
  have h2: "has_type ?old ?T" by simp
  have h3: "lengths_fit ?t" by simp
  note c = tuple_encoding_is_concatenation [OF h1 h2, of blank_memory 0]
  have len: "InlineEncoder_get_payload_length ?T ?t = 5"
    unfolding c [THEN conjunct2, THEN conjunct2, THEN conjunct1]
    by (simp add: tuple_fields_def AssignmentEncoder_get_payload_length_def
        InlineEncoder_string_get_payload_length_def sizeof_LengthType_def string_bytes_def)
  have enc: "InlineEncoder_encode ?T ?t blank_memory 0 = (mem_write blank_memory 0 [1, 2, 1, 0, 0x61], 5)"
    unfolding c [THEN conjunct1] len
    by (simp add: tuple_fields_def del: mem_write.simps)
  have dec: "InlineEncoder_decode ?T (fst (InlineEncoder_encode ?T ?t blank_memory 0)) 0 (Some ?old)
       = (snd (InlineEncoder_encode ?T ?t blank_memory 0), Some ?t, [])"
    using c [THEN conjunct2, THEN conjunct2, THEN conjunct2, THEN conjunct2] h3 by blast
  have "InlineEncoder_decode ?T (fst (InlineEncoder_encode ?T ?t blank_memory 0)) 0 (Some ?old)
       = (5, Some ?t, [])"
    unfolding dec by (simp only: enc snd_conv)
  with h1 h2 h3 len enc show ?thesis by blast
qed

section \<open>Decoding without an output\<close>

lemma decode_null_output: "fst (snd (InlineEncoder_decode T m src None)) = None"
proof (cases T)
  case (TScalar S)
  then show ?thesis by (simp add: AssignmentEncoder_decode_def)
next
  case TString
  then show ?thesis by (simp add: InlineEncoder_string_decode_def Let_def)
next
  case (TTuple Ts)
  then show ?thesis
    by (simp add: TupleEncodingHelper_decode.simps [of 0 _ _ _ None] case_prod_beta Let_def)
qed

lemma tuple_decode_null_allocates:
  assumes "Ts \<noteq> []"
  shows "\<exists>e v. InlineEncoder_decode (TTuple Ts) m src (Some (default_val (TTuple Ts))) = (e, Some v, [])
             \<and> InlineEncoder_decode (TTuple Ts) m src None = (e, None, [v])"
proof -
  obtain e r where some: "TupleEncodingHelper_decode 0 Ts m src (Some (map default_val Ts)) = (e, Some r, [])"
    using Helper_decode_shape [of Ts] InlineEncoder_decode_shape by blast
  from assms have "0 < length Ts" by simp
  then have none: "TupleEncodingHelper_decode 0 Ts m src None = (e, None, [VTuple r])"
    using some by (rule Helper_decode_null)
  have "InlineEncoder_decode (TTuple Ts) m src (Some (default_val (TTuple Ts))) = (e, Some (VTuple r), [])"
    by (simp add: tuple_fields_def some)
  moreover have "InlineEncoder_decode (TTuple Ts) m src None = (e, None, [VTuple r])"
    by (simp add: none)
  ultimately show ?thesis by blast
qed

text \<open>
  Claim C8 as stated fails in two places. A string of \<open>2 ^ 16\<close> zero bytes is encoded
  in \<open>2 ^ 16 + 2\<close> bytes with the length bytes \<open>0, 0\<close>, and \<open>decode\<close> with a
  null output returns the pointer advanced by 2, not past the encoded instance. And for the
  empty tuple \<open>decode\<close> with a null output allocates nothing.
\<close>

theorem decode_null_counterexample:
  "snd (InlineEncoder_encode TString (VString (replicate 65536 0)) blank_memory 0) = 65538
   \<and> fst (InlineEncoder_decode TString
         (fst (InlineEncoder_encode TString (VString (replicate 65536 0)) blank_memory 0)) 0 None) = 2
   \<and> InlineEncoder_decode (TTuple []) blank_memory 0 None = (0, None, [])"
proof -
  let ?s = "VString (replicate 65536 0)"
  let ?w = "[0, 0] @ replicate 65536 (0 :: byte)"
  have ty: "has_type ?s TString" by simp
  have w: "wire_format ?s = ?w" by simp
  have lw: "length ?w = 65538" by simp
  have enc: "InlineEncoder_encode TString ?s blank_memory 0 = (mem_write blank_memory 0 ?w, 65538)"
    unfolding InlineEncoder_encode_wire [OF ty] w lw by simp
  have "mem_read (mem_write blank_memory 0 ?w) 0 (length [0, 0 :: byte]) = [0, 0]"
    by (rule mem_read_mem_write_prefix)
  then have header: "mem_read (mem_write blank_memory 0 ?w) 0 2 = [0, 0]"
    by (simp add: numeral_2_eq_2 del: mem_write.simps mem_read.simps)
  have dec: "fst (InlineEncoder_decode TString (mem_write blank_memory 0 ?w) 0 None) = 2"
    by (simp add: InlineEncoder_string_decode_def sizeof_LengthType_def header
        del: mem_write.simps append.simps)
  have none: "InlineEncoder_decode (TTuple []) blank_memory 0 None = (0, None, [])"
    by (simp add: TupleEncodingHelper_decode.simps)
  from dec none show ?thesis
    unfolding enc fst_conv snd_conv by simp
qed

text \<open>
  Claim C8, amended: \<open>decode\<close> with a null output returns the same pointer as with a
  non-null output, for scalars, byte strings and tuples, over any memory, and leaves the
  caller without a value. On the encoding of a value whose byte strings are shorter than
  \<open>2 ^ 16\<close> bytes the returned pointer is the end of the encoding. For a tuple type
  with at least one field the null output is handled by allocating a value-initialised
  tuple and decoding into it: the call behaves as the call with a pointer to such a tuple
  does, except that the decoded tuple is owned by nobody afterwards; for the empty tuple
  nothing is allocated.
\<close>

theorem decode_null_output_same_end:
  "fst (InlineEncoder_decode T m src None) = fst (InlineEncoder_decode T m src (Some old))
   \<and> fst (AssignmentEncoder_decode S m src None) = fst (AssignmentEncoder_decode S m src (Some old))
   \<and> fst (InlineEncoder_string_decode m src None) = fst (InlineEncoder_string_decode m src (Some old))
   \<and> fst (snd (InlineEncoder_decode T m src None)) = None
   \<and> InlineEncoder_decode (TTuple []) m src None = (src, None, [])
   \<and> (Ts \<noteq> [] \<longrightarrow>
        (\<exists>e v. InlineEncoder_decode (TTuple Ts) m src (Some (default_val (TTuple Ts))) = (e, Some v, [])
              \<and> InlineEncoder_decode (TTuple Ts) m src None = (e, None, [v])))
   \<and> (has_type v T \<and> lengths_fit v \<longrightarrow>
        fst (InlineEncoder_decode T (fst (InlineEncoder_encode T v m dest)) dest None)
        = snd (InlineEncoder_encode T v m dest)
        \<and> snd (InlineEncoder_encode T v m dest) = dest + InlineEncoder_get_payload_length T v)"
proof -
  have a: "fst (InlineEncoder_decode T m src None) = fst (InlineEncoder_decode T m src (Some old))"
    by (rule InlineEncoder_decode_end [symmetric])
  have b: "fst (AssignmentEncoder_decode S m src None) = fst (AssignmentEncoder_decode S m src (Some old))"
    by (simp add: AssignmentEncoder_decode_def)
  have c: "fst (InlineEncoder_string_decode m src None) = fst (InlineEncoder_string_decode m src (Some old))"
    by (simp add: InlineEncoder_string_decode_def Let_def)
  have d: "fst (snd (InlineEncoder_decode T m src None)) = None"
    by (rule decode_null_output)
  have e: "\<exists>e v. InlineEncoder_decode (TTuple Ts) m src (Some (default_val (TTuple Ts))) = (e, Some v, [])
              \<and> InlineEncoder_decode (TTuple Ts) m src None = (e, None, [v])" if "Ts \<noteq> []"
    using that by (rule tuple_decode_null_allocates)
  have f: "fst (InlineEncoder_decode T (fst (InlineEncoder_encode T v m dest)) dest None)
        = snd (InlineEncoder_encode T v m dest)
        \<and> snd (InlineEncoder_encode T v m dest) = dest + InlineEncoder_get_payload_length T v"
    if "has_type v T" "lengths_fit v"
  proof -
    have "fst (InlineEncoder_decode T (fst (InlineEncoder_encode T v m dest)) dest None)
          = fst (InlineEncoder_decode T (fst (InlineEncoder_encode T v m dest)) dest (Some (default_val T)))"
      by (rule InlineEncoder_decode_end [symmetric])
    also have "\<dots> = snd (InlineEncoder_encode T v m dest)"
      using decode_after_encode [OF that has_type_default_val, of m dest] by simp
    finally have "fst (InlineEncoder_decode T (fst (InlineEncoder_encode T v m dest)) dest None)
          = snd (InlineEncoder_encode T v m dest)" .
    moreover have "snd (InlineEncoder_encode T v m dest) = dest + InlineEncoder_get_payload_length T v"
      by (simp add: InlineEncoder_encode_wire [OF that(1)] InlineEncoder_length_wire [OF that(1)])
    ultimately show ?thesis by blast
  qed
  have g: "InlineEncoder_decode (TTuple []) m src None = (src, None, [])"
    by (simp add: TupleEncodingHelper_decode.simps)
  from a b c d e f g show ?thesis by blast
qed

text \<open>
  Decoding the tuple of the 2-byte scalar \<open>0x0201\<close> and the string \<open>a\<close> without an
  output ends at address 5, where its encoding ends.
\<close>

theorem decode_null_output_same_end_witness:
  "[TScalar (Unsigned 2), TString] \<noteq> []
   \<and> has_type (VTuple [VScalar [1, 2], VString [0x61]]) (TTuple [TScalar (Unsigned 2), TString])
   \<and> lengths_fit (VTuple [VScalar [1, 2], VString [0x61]])
   \<and> fst (InlineEncoder_decode (TTuple [TScalar (Unsigned 2), TString])
         (fst (InlineEncoder_encode (TTuple [TScalar (Unsigned 2), TString])
                (VTuple [VScalar [1, 2], VString [0x61]]) blank_memory 0))
         0 None) = 5
   \<and> (\<exists>e v. InlineEncoder_decode (TTuple [TScalar (Unsigned 2), TString]) blank_memory 0
                (Some (default_val (TTuple [TScalar (Unsigned 2), TString]))) = (e, Some v, [])
            \<and> InlineEncoder_decode (TTuple [TScalar (Unsigned 2), TString]) blank_memory 0 None
                = (e, None, [v]))"
proof -
  let ?Ts = "[TScalar (Unsigned 2), TString]"
  let ?t = "VTuple [VScalar [1, 2], VString [0x61]]"
  have h0: "?Ts \<noteq> []" by simp
  have h1: "has_type ?t (TTuple ?Ts)" by simp
  have h2: "lengths_fit ?t" by simp
  note c = decode_null_output_same_end [where T = "TTuple ?Ts" and Ts = ?Ts and v = ?t
      and m = blank_memory and src = 0 and dest = 0]
  note past = c [THEN conjunct2, THEN conjunct2, THEN conjunct2, THEN conjunct2, THEN conjunct2,
      THEN conjunct2, rule_format, OF conjI, OF h1 h2]
  have len: "InlineEncoder_get_payload_length (TTuple ?Ts) ?t = 5"
    unfolding InlineEncoder_length_wire [OF h1] by simp
  have "fst (InlineEncoder_decode (TTuple ?Ts) (fst (InlineEncoder_encode (TTuple ?Ts) ?t blank_memory 0)) 0 None) = 5"
    using past len by simp
  moreover note c [THEN conjunct2, THEN conjunct2, THEN conjunct2, THEN conjunct2, THEN conjunct2,
      THEN conjunct1, rule_format, OF h0]
  ultimately show ?thesis using h0 h1 h2 by blast
qed

end
